theory Spec2Isabelle
  imports Main "HOL-Library.Sublist" "HOL-Library.Monad_Syntax"
begin

text \<open>
  A model of the Go package ptstemmer, a Porter stemmer for Portuguese: the suffix tree
  of \<^verbatim>\<open>suffix_tree.go\<close>, which finds the longest registered suffix of a word, and the
  stemmer of \<^verbatim>\<open>porter_stemmer.go\<close>, which computes the regions R1, R2 and RV of a word
  and applies five steps of suffix removal.
\<close>

section \<open>Strings\<close>

text \<open>
  The stemmer works on Go strings that hold text. A string is modelled by the list of
  its Unicode code points (Go's \<^verbatim>\<open>[]rune(word)\<close>), a \<open>rune\<close> being the number of the
  code point. On such strings the byte-level functions of package \<^verbatim>\<open>strings\<close> agree with
  their rune-level reading, because UTF-8 is self-synchronising: a pattern can only
  match at a rune boundary. Indices returned by \<open>LastIndex\<close> and taken by the slice
  \<^verbatim>\<open>word[:lid]\<close> therefore count runes here where the source counts bytes.
\<close>

type_synonym rune = nat

definition str :: "string \<Rightarrow> rune list" where
  "str s = map of_char s"

text \<open>The accented letters of the source, which are all in the Latin-1 block.\<close>

abbreviation a_acute :: char where "a_acute \<equiv> CHR 0xE1"
abbreviation e_acute :: char where "e_acute \<equiv> CHR 0xE9"
abbreviation i_acute :: char where "i_acute \<equiv> CHR 0xED"
abbreviation o_acute :: char where "o_acute \<equiv> CHR 0xF3"
abbreviation u_acute :: char where "u_acute \<equiv> CHR 0xFA"
abbreviation a_circ :: char where "a_circ \<equiv> CHR 0xE2"
abbreviation e_circ :: char where "e_circ \<equiv> CHR 0xEA"
abbreviation o_circ :: char where "o_circ \<equiv> CHR 0xF4"
abbreviation a_tilde :: char where "a_tilde \<equiv> CHR 0xE3"
abbreviation o_tilde :: char where "o_tilde \<equiv> CHR 0xF5"
abbreviation c_cedilla :: char where "c_cedilla \<equiv> CHR 0xE7"

text \<open>\<^verbatim>\<open>strings.HasSuffix(s, suffix)\<close>.\<close>

definition HasSuffix :: "rune list \<Rightarrow> rune list \<Rightarrow> bool" where
  "HasSuffix s sfx \<longleftrightarrow> length s \<ge> length sfx \<and> drop (length s - length sfx) s = sfx"

text \<open>
  \<^verbatim>\<open>strings.LastIndex(s, substr)\<close>: the index of the last occurrence of \<open>substr\<close> in
  \<open>s\<close>, or \<open>-1\<close>. The search tries the start positions from the rightmost down.
\<close>

fun LastIndex_from :: "rune list \<Rightarrow> rune list \<Rightarrow> nat \<Rightarrow> int" where
  "LastIndex_from s substr 0 = (if take (length substr) s = substr then 0 else - 1)"
| "LastIndex_from s substr (Suc i) =
     (if take (length substr) (drop (Suc i) s) = substr then int (Suc i)
      else LastIndex_from s substr i)"

definition LastIndex :: "rune list \<Rightarrow> rune list \<Rightarrow> int" where
  "LastIndex s substr =
     (if length substr > length s then - 1
      else LastIndex_from s substr (length s - length substr))"

text \<open>
  The slice expression \<^verbatim>\<open>s[:j]\<close>. Go panics when the bound is negative or beyond the
  length; the panic is the value \<open>None\<close>.
\<close>

definition slice_to :: "rune list \<Rightarrow> int \<Rightarrow> rune list option" where
  "slice_to s j = (if 0 \<le> j \<and> j \<le> int (length s) then Some (take (nat j) s) else None)"

text \<open>
  \<^verbatim>\<open>strings.Replace(s, old, new, -1)\<close>: all non-overlapping occurrences, from the left.
  An empty \<open>old\<close> matches before every rune and at the end.
\<close>

fun Replace :: "rune list \<Rightarrow> rune list \<Rightarrow> rune list \<Rightarrow> rune list" where
  "Replace s [] new = new @ concat (map (\<lambda>c. c # new) s)"
| "Replace [] (a # as) new = []"
| "Replace (x # xs) (a # as) new =
     (if prefix (a # as) (x # xs)
      then new @ Replace (drop (length (a # as)) (x # xs)) (a # as) new
      else x # Replace xs (a # as) new)"


section \<open>The suffix tree\<close>

text \<open>
  A node owns its children (a Go map from runes to node pointers, no node is shared), the
  word that ends in it (\<open>[]\<close> for none) and the group of that word. The methods that
  mutate the tree in place return the new tree here.
\<close>

datatype node = Node (children: "rune \<Rightarrow> node option") (nword: "rune list") (ngroup: int)

record suffixTree =
  root :: node

definition newNode :: node where
  "newNode = Node Map.empty [] (- 1)"

definition newSuffixTree :: suffixTree where
  "newSuffixTree = \<lparr>root = newNode\<rparr>"

text \<open>
  The loop of \<open>Add\<close> runs over the runes of the word from the last to the first, that is
  over \<open>rev w\<close>, and writes word and group into the node it ends in.
\<close>

fun Add_loop :: "rune list \<Rightarrow> rune list \<Rightarrow> int \<Rightarrow> node \<Rightarrow> node" where
  "Add_loop [] w g cnode = Node (children cnode) w g"
| "Add_loop (c # cs) w g cnode =
     (case children cnode c of
        Some n \<Rightarrow> Node ((children cnode)(c \<mapsto> Add_loop cs w g n)) (nword cnode) (ngroup cnode)
      | None \<Rightarrow> Node ((children cnode)(c \<mapsto> Add_loop cs w g newNode)) (nword cnode) (ngroup cnode))"

definition Add :: "suffixTree \<Rightarrow> rune list \<Rightarrow> int \<Rightarrow> suffixTree" where
  "Add st w g = st\<lparr>root := Add_loop (rev w) w g (root st)\<rparr>"

fun Contains_loop :: "rune list \<Rightarrow> node \<Rightarrow> node option" where
  "Contains_loop [] cnode = Some cnode"
| "Contains_loop (c # cs) cnode =
     (case children cnode c of Some n \<Rightarrow> Contains_loop cs n | None \<Rightarrow> None)"

definition Contains :: "suffixTree \<Rightarrow> rune list \<Rightarrow> bool" where
  "Contains st w =
     (case Contains_loop (rev w) (root st) of
        None \<Rightarrow> False
      | Some cnode \<Rightarrow> nword cnode \<noteq> [] \<and> nword cnode = w)"

text \<open>
  The loop of \<open>LongestSuffix\<close> carries the current suffix, its size and its group; a
  missing edge is the \<^verbatim>\<open>break\<close>.
\<close>

fun LongestSuffix_loop ::
  "rune list \<Rightarrow> node \<Rightarrow> rune list \<times> int \<times> int \<Rightarrow> rune list \<times> int \<times> int" where
  "LongestSuffix_loop [] cnode acc = acc"
| "LongestSuffix_loop (c # cs) cnode (currentSuffix, currentSuffixSize, currentSuffixGroup) =
     (case children cnode c of
        Some n \<Rightarrow>
          LongestSuffix_loop cs n
            (if nword n \<noteq> [] then
               (let sz = int (length (nword n)) in
                if sz > currentSuffixSize then (nword n, sz, ngroup n)
                else (currentSuffix, currentSuffixSize, currentSuffixGroup))
             else (currentSuffix, currentSuffixSize, currentSuffixGroup))
      | None \<Rightarrow> (currentSuffix, currentSuffixSize, currentSuffixGroup))"

definition LongestSuffix :: "suffixTree \<Rightarrow> rune list \<Rightarrow> rune list \<times> int" where
  "LongestSuffix st w =
     (case LongestSuffix_loop (rev w) (root st) ([], - 1, - 1) of
        (currentSuffix, currentSuffixSize, currentSuffixGroup) \<Rightarrow>
          (currentSuffix, currentSuffixGroup))"

text \<open>A chain of calls \<^verbatim>\<open>st.Add(w1, g1).Add(w2, g2)...\<close>, in the order of the calls.\<close>

definition AddAll :: "suffixTree \<Rightarrow> (rune list \<times> int) list \<Rightarrow> suffixTree" where
  "AddAll st es = foldl (\<lambda>t (w, g). Add t w g) st es"

text \<open>The tree of \<^verbatim>\<open>TestLongestSuffix\<close>.\<close>

definition addedWords :: "(rune list \<times> int) list" where
  "addedWords =
     [(str ''ismos'', 1), (str ''a'', 1), (str ''ma'', 1), (str ''dog'', 1), (str ''ia'', 1)]"


section \<open>The stemmer\<close>

record PorterStemmer =
  vowels :: "rune \<Rightarrow> bool option"
  step1SuffixTree :: suffixTree
  step2SuffixTree :: suffixTree
  step4SuffixTree :: suffixTree
  step5SuffixTree :: suffixTree

definition vowelsRunes :: "rune list" where
  "vowelsRunes =
     str (''aeiou'' @ [a_acute, e_acute, i_acute, o_acute, u_acute, a_circ, e_circ, o_circ])"

text \<open>The suffixes loaded by \<open>NewPorterStemmer\<close>, each list in the order of its \<open>Add\<close> calls.\<close>

definition step1Suffixes :: "(rune list \<times> int) list" where
  "step1Suffixes = [
    (str ''eza'', 0), (str ''ezas'', 0), (str ''ico'', 0), (str ''ica'', 0), (str ''icos'', 0),
     (str ''icas'', 0), (str ''ismo'', 0), (str ''ismos'', 0), (str ([a_acute] @ ''vel''), 0),
     (str ([i_acute] @ ''vel''), 0), (str ''ista'', 0), (str ''istas'', 0), (str ''oso'', 0),
     (str ''osa'', 0), (str ''osos'', 0), (str ''osas'', 0), (str ''amento'', 0),
     (str ''amentos'', 0), (str ''imento'', 0), (str ''imentos'', 0), (str ''adora'', 0),
     (str ''ador'', 0), (str (''a'' @ [c_cedilla] @ ''a~o''), 0), (str ''adoras'', 0),
     (str ''adores'', 0), (str (''a'' @ [c_cedilla] @ ''o~es''), 0), (str ''ante'', 0),
     (str ''antes'', 0), (str ([a_circ] @ ''ncia''), 0),
     (str (''log'' @ [i_acute] @ ''a''), 1), (str (''log'' @ [i_acute] @ ''as''), 1),
     (str (''uci'' @ [o_acute] @ ''n''), 2), (str ''uciones'', 2),
     (str ([e_circ] @ ''ncia''), 3), (str ([e_circ] @ ''ncias''), 3), (str ''amente'', 4),
     (str ''mente'', 5), (str ''idade'', 6), (str ''idades'', 6), (str ''iva'', 7),
     (str ''ivo'', 7), (str ''ivas'', 7), (str ''ivos'', 7), (str ''ira'', 8), (str ''iras'', 8)]"

definition step2Suffixes :: "(rune list \<times> int) list" where
  "step2Suffixes = [
    (str ''ada'', 0), (str ''ida'', 0), (str ''ia'', 0), (str ''aria'', 0), (str ''eria'', 0),
     (str ''iria'', 0), (str (''ar'' @ [a_acute]), 0), (str ''ara'', 0),
     (str (''er'' @ [a_acute]), 0), (str ''era'', 0), (str (''ir'' @ [a_acute]), 0),
     (str ''ava'', 0), (str ''asse'', 0), (str ''esse'', 0), (str ''isse'', 0),
     (str ''aste'', 0), (str ''este'', 0), (str ''iste'', 0), (str ''ei'', 0),
     (str ''arei'', 0), (str ''erei'', 0), (str ''irei'', 0), (str ''am'', 0),
     (str ''iam'', 0), (str ''ariam'', 0), (str ''eriam'', 0), (str ''iriam'', 0),
     (str ''aram'', 0), (str ''eram'', 0), (str ''iram'', 0), (str ''avam'', 0),
     (str ''em'', 0), (str ''arem'', 0), (str ''erem'', 0), (str ''irem'', 0),
     (str ''assem'', 0), (str ''essem'', 0), (str ''issem'', 0), (str ''ado'', 0),
     (str ''ido'', 0), (str ''ando'', 0), (str ''endo'', 0), (str ''indo'', 0),
     (str ''ara~o'', 0), (str ''era~o'', 0), (str ''ira~o'', 0), (str ''ar'', 0),
     (str ''er'', 0), (str ''ir'', 0), (str ''as'', 0), (str ''adas'', 0), (str ''idas'', 0),
     (str ''ias'', 0), (str ''arias'', 0), (str ''erias'', 0), (str ''irias'', 0),
     (str (''ar'' @ [a_acute] @ ''s''), 0), (str ''aras'', 0),
     (str (''er'' @ [a_acute] @ ''s''), 0), (str ''eras'', 0),
     (str (''ir'' @ [a_acute] @ ''s''), 0), (str ''avas'', 0), (str ''es'', 0),
     (str ''ardes'', 0), (str ''erdes'', 0), (str ''irdes'', 0), (str ''ares'', 0),
     (str ''eres'', 0), (str ''ires'', 0), (str ''asses'', 0), (str ''esses'', 0),
     (str ''isses'', 0), (str ''astes'', 0), (str ''estes'', 0), (str ''istes'', 0),
     (str ''is'', 0), (str ''ais'', 0), (str ''eis'', 0), (str ([i_acute] @ ''eis''), 0),
     (str (''ar'' @ [i_acute] @ ''eis''), 0), (str (''er'' @ [i_acute] @ ''eis''), 0),
     (str (''ir'' @ [i_acute] @ ''eis''), 0), (str ([a_acute] @ ''reis''), 0),
     (str ''areis'', 0), (str ([e_acute] @ ''reis''), 0), (str ''ereis'', 0),
     (str ([i_acute] @ ''reis''), 0), (str ''ireis'', 0), (str ([a_acute] @ ''sseis''), 0),
     (str ([e_acute] @ ''sseis''), 0), (str ([i_acute] @ ''sseis''), 0),
     (str ([a_acute] @ ''veis''), 0), (str ''ados'', 0), (str ''idos'', 0),
     (str ([a_acute] @ ''mos''), 0), (str ''amos'', 0), (str ([i_acute] @ ''amos''), 0),
     (str (''ar'' @ [i_acute] @ ''amos''), 0), (str (''er'' @ [i_acute] @ ''amos''), 0),
     (str (''ir'' @ [i_acute] @ ''amos''), 0), (str ([a_acute] @ ''ramos''), 0),
     (str ([e_acute] @ ''ramos''), 0), (str ([i_acute] @ ''ramos''), 0),
     (str ([a_acute] @ ''vamos''), 0), (str ''emos'', 0), (str ''aremos'', 0),
     (str ''eremos'', 0), (str ''iremos'', 0), (str ([a_acute] @ ''ssemos''), 0),
     (str ([e_circ] @ ''ssemos''), 0), (str ([i_acute] @ ''ssemos''), 0), (str ''imos'', 0),
     (str ''armos'', 0), (str ''ermos'', 0), (str ''irmos'', 0), (str ''eu'', 0),
     (str ''iu'', 0), (str ''ou'', 0), (str ''ira'', 0), (str ''iras'', 0)]"

definition step4Suffixes :: "(rune list \<times> int) list" where
  "step4Suffixes = [
    (str ''os'', 0), (str ''a'', 0), (str ''i'', 0), (str ''o'', 0), (str ([a_acute]), 0),
     (str ([i_acute]), 0), (str ([o_acute]), 0)]"

definition step5Suffixes :: "(rune list \<times> int) list" where
  "step5Suffixes = [
    (str ''e'', 0), (str ([e_acute]), 0), (str ([e_circ]), 0)]"

definition NewPorterStemmer :: PorterStemmer where
  "NewPorterStemmer =
     \<lparr>vowels = foldl (\<lambda>m rn. m(rn \<mapsto> True)) Map.empty vowelsRunes,
      step1SuffixTree = AddAll newSuffixTree step1Suffixes,
      step2SuffixTree = AddAll newSuffixTree step2Suffixes,
      step4SuffixTree = AddAll newSuffixTree step4Suffixes,
      step5SuffixTree = AddAll newSuffixTree step5Suffixes\<rparr>"

definition isVowel :: "PorterStemmer \<Rightarrow> rune \<Rightarrow> bool" where
  "isVowel ps r = (case vowels ps r of Some _ \<Rightarrow> True | None \<Rightarrow> False)"

definition expandNasalisedVowels :: "PorterStemmer \<Rightarrow> rune list \<Rightarrow> rune list" where
  "expandNasalisedVowels ps word =
     (let word = Replace word (str [a_tilde]) (str ''a~'');
          word = Replace word (str [o_tilde]) (str ''o~'')
      in word)"

definition contractNasalisedVowels :: "PorterStemmer \<Rightarrow> rune list \<Rightarrow> rune list" where
  "contractNasalisedVowels ps word =
     (let word = Replace word (str ''a~'') (str [a_tilde]);
          word = Replace word (str ''o~'') (str [o_tilde])
      in word)"

text \<open>
  The loop of \<open>r\<close>, from index \<open>i\<close>. Its guard \<^verbatim>\<open>i < len(runes)-1\<close> is a comparison of
  signed integers, and it keeps \<open>i\<close>, \<open>i + 1\<close> and the bound of \<^verbatim>\<open>runes[i+2:]\<close> in range.
\<close>

function r_loop :: "PorterStemmer \<Rightarrow> rune list \<Rightarrow> nat \<Rightarrow> rune list" where
  "r_loop ps runes i =
     (if int i < int (length runes) - 1 then
        (if isVowel ps (runes ! i) \<and> \<not> isVowel ps (runes ! (i + 1))
         then drop (i + 2) runes
         else r_loop ps runes (i + 1))
      else [])"
  by pat_completeness auto
termination
  by (relation "measure (\<lambda>(ps, runes, i). length runes - i)") auto

declare r_loop.simps [simp del]

definition r :: "PorterStemmer \<Rightarrow> rune list \<Rightarrow> rune list" where
  "r ps word = r_loop ps word 0"

text \<open>
  The two loops of \<open>rv\<close> differ only in the test: the first returns at a vowel
  (\<open>v = True\<close>), the second at a non-vowel (\<open>v = False\<close>). \<open>None\<close> says that the loop
  ended without returning. After the first loop the function falls through to its last
  line, \<^verbatim>\<open>return string(runes[3:])\<close>; after the second it returns the empty string.
\<close>

function rv_loop :: "PorterStemmer \<Rightarrow> bool \<Rightarrow> rune list \<Rightarrow> nat \<Rightarrow> rune list option" where
  "rv_loop ps v runes i =
     (if i < length runes then
        (if isVowel ps (runes ! i) = v then Some (drop (i + 1) runes)
         else rv_loop ps v runes (i + 1))
      else None)"
  by pat_completeness auto
termination
  by (relation "measure (\<lambda>(ps, v, runes, i). length runes - i)") auto

declare rv_loop.simps [simp del]

definition rv :: "PorterStemmer \<Rightarrow> rune list \<Rightarrow> rune list" where
  "rv ps word =
     (if length word < 3 then []
      else if \<not> isVowel ps (word ! 1) then
        (case rv_loop ps True word 2 of
           Some res \<Rightarrow> res
         | None \<Rightarrow> drop 3 word)
      else if isVowel ps (word ! 0) \<and> isVowel ps (word ! 1) then
        (case rv_loop ps False word 2 of
           Some res \<Rightarrow> res
         | None \<Rightarrow> [])
      else drop 3 word)"

text \<open>
  The steps return the word and the flag "modified", or \<open>None\<close> when a slice panics.
  The parameter \<open>rV\<close> is the source's \<open>rv\<close>, and \<open>sfx\<close>, \<open>grp\<close> are its \<open>suffix\<close>, \<open>group\<close>.
\<close>

definition step1 ::
  "PorterStemmer \<Rightarrow> rune list \<Rightarrow> rune list \<Rightarrow> rune list \<Rightarrow> rune list \<Rightarrow> (rune list \<times> bool) option" where
  "step1 ps word r1 r2 rV =
     (case LongestSuffix (step1SuffixTree ps) word of (sfx, grp) \<Rightarrow>
        if sfx = [] then Some (word, False)
        else if grp = 0 then
          (if HasSuffix r2 sfx then
             do { res \<leftarrow> slice_to word (LastIndex word sfx); Some (res, True) }
           else Some (word, False))
        else if grp = 1 then
          (if HasSuffix r2 sfx then
             do { res \<leftarrow> slice_to word (LastIndex word sfx); Some (res @ str ''log'', True) }
           else Some (word, False))
        else if grp = 2 then
          (if HasSuffix r2 sfx then
             do { res \<leftarrow> slice_to word (LastIndex word sfx); Some (res @ str ''u'', True) }
           else Some (word, False))
        else if grp = 3 then
          (if HasSuffix r2 sfx then
             do { res \<leftarrow> slice_to word (LastIndex word sfx); Some (res @ str ''ente'', True) }
           else Some (word, False))
        else if grp = 4 then
          do {
            (res, mod') \<leftarrow>
              (if HasSuffix r1 sfx then
                 do { res \<leftarrow> slice_to word (LastIndex word sfx); Some (res, True) }
               else Some (word, False));
            res \<leftarrow>
              (if HasSuffix r2 (str ''iv'' @ sfx) then
                 do {
                   res \<leftarrow> slice_to res (LastIndex res (str ''iv''));
                   (if HasSuffix r2 (str ''ativ'' @ sfx)
                    then slice_to res (LastIndex res (str ''at''))
                    else Some res)
                 }
               else if HasSuffix r2 (str ''os'' @ sfx) then
                 slice_to res (LastIndex res (str ''os''))
               else if HasSuffix r2 (str ''ic'' @ sfx) then
                 slice_to res (LastIndex res (str ''ic''))
               else if HasSuffix r2 (str ''ad'' @ sfx) then
                 slice_to res (LastIndex res (str ''ad''))
               else Some res);
            Some (res, mod')
          }
        else if grp = 5 then
          (if HasSuffix r2 (str ''ante'' @ sfx) then
             do { res \<leftarrow> slice_to word (LastIndex word (str ''ante'' @ sfx)); Some (res, True) }
           else if HasSuffix r2 (str ''avel'' @ sfx) then
             do { res \<leftarrow> slice_to word (LastIndex word (str ''avel'' @ sfx)); Some (res, True) }
           else if HasSuffix r2 (str ([i_acute] @ ''vel'') @ sfx) then
             do { res \<leftarrow> slice_to word (LastIndex word (str ([i_acute] @ ''vel'') @ sfx));
                  Some (res, True) }
           else if HasSuffix r2 sfx then
             do { res \<leftarrow> slice_to word (LastIndex word sfx); Some (res, True) }
           else Some (word, False))
        else if grp = 6 then
          (if HasSuffix r2 (str ''abil'' @ sfx) then
             do { res \<leftarrow> slice_to word (LastIndex word (str ''abil'' @ sfx)); Some (res, True) }
           else if HasSuffix r2 (str ''ic'' @ sfx) then
             do { res \<leftarrow> slice_to word (LastIndex word (str ''ic'' @ sfx)); Some (res, True) }
           else if HasSuffix r2 (str ''iv'' @ sfx) then
             do { res \<leftarrow> slice_to word (LastIndex word (str ''iv'' @ sfx)); Some (res, True) }
           else if HasSuffix r2 sfx then
             do { res \<leftarrow> slice_to word (LastIndex word sfx); Some (res, True) }
           else Some (word, False))
        else if grp = 7 then
          (if HasSuffix r2 (str ''at'' @ sfx) then
             do { res \<leftarrow> slice_to word (LastIndex word (str ''at'' @ sfx)); Some (res, True) }
           else if HasSuffix r2 sfx then
             do { res \<leftarrow> slice_to word (LastIndex word sfx); Some (res, True) }
           else Some (word, False))
        else if grp = 8 then
          (if HasSuffix rV sfx \<and> HasSuffix word (str ''e'' @ sfx) then
             do { res \<leftarrow> slice_to word (LastIndex word sfx); Some (res @ str ''ir'', True) }
           else Some (word, False))
        else Some (word, False))"

definition step2 ::
  "PorterStemmer \<Rightarrow> rune list \<Rightarrow> rune list \<Rightarrow> rune list \<Rightarrow> rune list \<Rightarrow> (rune list \<times> bool) option" where
  "step2 ps word r1 r2 rV =
     (case LongestSuffix (step2SuffixTree ps) rV of (sfx, grp) \<Rightarrow>
        if sfx = [] then Some (word, False)
        else do { res \<leftarrow> slice_to word (LastIndex word sfx); Some (res, True) })"

definition step3 ::
  "PorterStemmer \<Rightarrow> rune list \<Rightarrow> rune list \<Rightarrow> rune list \<Rightarrow> rune list \<Rightarrow> (rune list \<times> bool) option" where
  "step3 ps word r1 r2 rV =
     (if HasSuffix word (str ''ci'') \<and> HasSuffix rV (str ''i'')
      then do { res \<leftarrow> slice_to word (int (length word) - 1); Some (res, True) }
      else Some (word, False))"

definition step4 ::
  "PorterStemmer \<Rightarrow> rune list \<Rightarrow> rune list \<Rightarrow> rune list \<Rightarrow> rune list \<Rightarrow> (rune list \<times> bool) option" where
  "step4 ps word r1 r2 rV =
     (case LongestSuffix (step4SuffixTree ps) rV of (sfx, grp) \<Rightarrow>
        if sfx = [] then Some (word, False)
        else do { res \<leftarrow> slice_to word (LastIndex word sfx); Some (res, True) })"

definition step5 ::
  "PorterStemmer \<Rightarrow> rune list \<Rightarrow> rune list \<Rightarrow> rune list \<Rightarrow> rune list \<Rightarrow> (rune list \<times> bool) option" where
  "step5 ps word r1 r2 rV =
     (case LongestSuffix (step5SuffixTree ps) rV of (sfx, grp) \<Rightarrow>
        if sfx = [] then
          (if HasSuffix word (str [c_cedilla]) then
             do { res \<leftarrow> slice_to word (LastIndex word (str [c_cedilla]));
                  Some (res @ str ''c'', True) }
           else Some (word, False))
        else if HasSuffix rV (str ''u'' @ sfx) \<and> HasSuffix word (str ''gu'' @ sfx) then
          do { res \<leftarrow> slice_to word (LastIndex word (str ''u'' @ sfx)); Some (res, True) }
        else if HasSuffix rV (str ''i'' @ sfx) \<and> HasSuffix word (str ''ci'' @ sfx) then
          do { res \<leftarrow> slice_to word (LastIndex word (str ''i'' @ sfx)); Some (res, True) }
        else do { res \<leftarrow> slice_to word (LastIndex word sfx); Some (res, True) })"

text \<open>\<open>Stem\<close> returns \<open>None\<close> when one of its steps panics.\<close>

definition Stem :: "PorterStemmer \<Rightarrow> rune list \<Rightarrow> rune list option" where
  "Stem ps word =
     (let stem = expandNasalisedVowels ps word;
          r1 = r ps stem;
          r2 = r ps r1;
          rV = rv ps stem
      in do {
        (stem, modified) \<leftarrow> step1 ps stem r1 r2 rV;
        (stem, modified) \<leftarrow>
          (if \<not> modified then step2 ps stem r1 r2 rV else Some (stem, modified));
        (stem, modified, r1, r2, rV) \<leftarrow>
          (if modified then
             (let r1 = r ps stem; r2 = r ps r1; rV = rv ps stem
              in do { (stem, modified) \<leftarrow> step3 ps stem r1 r2 rV;
                      Some (stem, modified, r1, r2, rV) })
           else
             do { (stem, modified) \<leftarrow> step4 ps stem r1 r2 rV;
                  Some (stem, modified, r1, r2, rV) });
        (r1, r2, rV) \<leftarrow>
          Some (if modified then (let r1 = r ps stem in (r1, r ps r1, rv ps stem))
                else (r1, r2, rV));
        (stem, modified) \<leftarrow> step5 ps stem r1 r2 rV;
        Some (contractNasalisedVowels ps stem)
      })"


section \<open>The calls made by a run of Stem\<close>

text \<open>
  To speak about the order of the steps and about the regions they receive, the same
  control flow is run once more with a log: \<open>Regions w\<close> records that r1, r2 and rv were
  computed from \<open>w\<close>, and \<open>StepCall k w r1 r2 rv m\<close> that step \<open>k\<close> was called with the word
  \<open>w\<close> and these regions and reported the flag \<open>m\<close>. \<open>Stem_trace_Stem\<close> below shows that
  the logged run returns what \<open>Stem\<close> returns.
\<close>

datatype event =
    Regions "rune list"
  | StepCall nat "rune list" "rune list" "rune list" "rune list" bool

definition Stem_trace :: "PorterStemmer \<Rightarrow> rune list \<Rightarrow> (event list \<times> rune list) option" where
  "Stem_trace ps word =
     (let stem = expandNasalisedVowels ps word;
          r1 = r ps stem;
          r2 = r ps r1;
          rV = rv ps stem;
          log = [Regions stem]
      in do {
        (stem1, modified) \<leftarrow> step1 ps stem r1 r2 rV;
        log \<leftarrow> Some (log @ [StepCall 1 stem r1 r2 rV modified]);
        (stem2, modified, log) \<leftarrow>
          (if \<not> modified then
             do { (s, m) \<leftarrow> step2 ps stem1 r1 r2 rV;
                  Some (s, m, log @ [StepCall 2 stem1 r1 r2 rV m]) }
           else Some (stem1, modified, log));
        (stem3, modified, r1, r2, rV, log) \<leftarrow>
          (if modified then
             (let r1 = r ps stem2; r2 = r ps r1; rV = rv ps stem2; log = log @ [Regions stem2]
              in do { (s, m) \<leftarrow> step3 ps stem2 r1 r2 rV;
                      Some (s, m, r1, r2, rV, log @ [StepCall 3 stem2 r1 r2 rV m]) })
           else
             do { (s, m) \<leftarrow> step4 ps stem2 r1 r2 rV;
                  Some (s, m, r1, r2, rV, log @ [StepCall 4 stem2 r1 r2 rV m]) });
        (r1, r2, rV, log) \<leftarrow>
          Some (if modified
                then (let r1 = r ps stem3 in (r1, r ps r1, rv ps stem3, log @ [Regions stem3]))
                else (r1, r2, rV, log));
        (stem5, modified) \<leftarrow> step5 ps stem3 r1 r2 rV;
        Some (log @ [StepCall 5 stem3 r1 r2 rV modified], contractNasalisedVowels ps stem5)
      })"

fun step_no :: "event \<Rightarrow> nat option" where
  "step_no (Regions w) = None"
| "step_no (StepCall k w r1 r2 rV m) = Some k"

definition steps_of :: "event list \<Rightarrow> nat list" where
  "steps_of tr = List.map_filter step_no tr"

definition attempted :: "nat \<Rightarrow> event list \<Rightarrow> bool" where
  "attempted k tr \<longleftrightarrow> k \<in> set (steps_of tr)"

fun reports :: "nat \<Rightarrow> event \<Rightarrow> bool" where
  "reports k (Regions w) = False"
| "reports k (StepCall k' w r1 r2 rV m) = (k' = k \<and> m)"

definition modified_by :: "nat \<Rightarrow> event list \<Rightarrow> bool" where
  "modified_by k tr \<longleftrightarrow> list_ex (reports k) tr"

fun is_Regions :: "event \<Rightarrow> bool" where
  "is_Regions (Regions w) = True"
| "is_Regions (StepCall k w r1 r2 rV m) = False"

text \<open>A logged call has fresh regions when they are those of the word it was called with.\<close>

fun fresh :: "PorterStemmer \<Rightarrow> event \<Rightarrow> bool" where
  "fresh ps (Regions w) = True"
| "fresh ps (StepCall k w r1 r2 rV m) = (r1 = r ps w \<and> r2 = r ps (r ps w) \<and> rV = rv ps w)"


text \<open>
  A log is tied to the steps themselves by replaying it: starting from a current word,
  every logged computation of regions must be for the current word, every logged call
  must be a call on the current word, the step called with the logged arguments must
  return the logged flag, and the word it returns is the current word from then on.
  \<open>replay\<close> returns the last current word, and \<open>None\<close> for a log that is not of this
  kind.
\<close>

definition step_fn ::
  "nat \<Rightarrow> PorterStemmer \<Rightarrow> rune list \<Rightarrow> rune list \<Rightarrow> rune list \<Rightarrow> rune list \<Rightarrow>
   (rune list \<times> bool) option" where
  "step_fn k ps word r1 r2 rV =
     (if k = 1 then step1 ps word r1 r2 rV
      else if k = 2 then step2 ps word r1 r2 rV
      else if k = 3 then step3 ps word r1 r2 rV
      else if k = 4 then step4 ps word r1 r2 rV
      else if k = 5 then step5 ps word r1 r2 rV
      else None)"

fun replay :: "PorterStemmer \<Rightarrow> rune list \<Rightarrow> event list \<Rightarrow> rune list option" where
  "replay ps cur [] = Some cur"
| "replay ps cur (Regions w # tr) = (if w = cur then replay ps cur tr else None)"
| "replay ps cur (StepCall k w r1 r2 rV m # tr) =
     (if w = cur then
        (case step_fn k ps w r1 r2 rV of
           None \<Rightarrow> None
         | Some (res, m') \<Rightarrow> if m' = m then replay ps res tr else None)
      else None)"


section \<open>Auxiliary notions for the proofs\<close>

text \<open>The label stored at the end of a path of edges, when the path exists.\<close>

definition label :: "rune list \<Rightarrow> node \<Rightarrow> (rune list \<times> int) option" where
  "label p n = map_option (\<lambda>m. (nword m, ngroup m)) (Contains_loop p n)"

text \<open>The deepest labelled node on the path that the lookup walks.\<close>

fun deepest :: "rune list \<Rightarrow> node \<Rightarrow> (rune list \<times> int) option" where
  "deepest [] n = None"
| "deepest (c # cs) n =
     (case children n c of
        None \<Rightarrow> None
      | Some m \<Rightarrow>
          (case deepest cs m of
             Some res \<Rightarrow> Some res
           | None \<Rightarrow> if nword m \<noteq> [] then Some (nword m, ngroup m) else None))"

text \<open>In a tree built by \<open>Add\<close> a word stored at depth \<open>d\<close> has \<open>d\<close> runes.\<close>

definition depth_ok :: "node \<Rightarrow> nat \<Rightarrow> bool" where
  "depth_ok n k \<longleftrightarrow> (\<forall>q w g. label q n = Some (w, g) \<longrightarrow> w \<noteq> [] \<longrightarrow> length w = k + length q)"

text \<open>
  The longest registered suffix, computed on the list of registrations: the last
  registration of a suffix decides its group.
\<close>

definition longest_registered :: "(rune list \<times> int) list \<Rightarrow> rune list \<Rightarrow> rune list \<times> int" where
  "longest_registered es w =
     foldl (\<lambda>(cur, g) (s, k).
              if s \<noteq> [] \<and> HasSuffix w s \<and> length cur \<le> length s then (s, k) else (cur, g))
           ([], - 1) es"

text \<open>
  Expansion rune by rune, and contraction as one scan from the left; \<open>126\<close> is the tilde,
  \<open>97\<close> and \<open>111\<close> are a and o, \<open>227\<close> and \<open>245\<close> are the nasal vowels.
\<close>

definition expand_rune :: "rune \<Rightarrow> rune list" where
  "expand_rune x = (if x = 227 then [97, 126] else if x = 245 then [111, 126] else [x])"

fun contract_scan :: "rune list \<Rightarrow> rune list" where
  "contract_scan (x # y # zs) =
     (if x = 97 \<and> y = 126 then 227 # contract_scan zs
      else if x = 111 \<and> y = 126 then 245 # contract_scan zs
      else x # contract_scan (y # zs))"
| "contract_scan [x] = [x]"
| "contract_scan [] = []"

text \<open>
  What every step guarantees when it is called on the word \<open>word\<close>: it returns, an
  unmodified result is the word itself, and the result contracts to no more runes.
\<close>

definition step_ok :: "rune list \<Rightarrow> (rune list \<times> bool) option \<Rightarrow> bool" where
  "step_ok word x =
     (case x of
        None \<Rightarrow> False
      | Some (res, m) \<Rightarrow>
          (\<not> m \<longrightarrow> res = word) \<and> length (contract_scan res) \<le> length (contract_scan word))"

text \<open>
  The log of a run in terms of the flags and the words between the steps: \<open>call\<close> is a
  call of a step with the regions of its word.
\<close>

definition call :: "PorterStemmer \<Rightarrow> nat \<Rightarrow> rune list \<Rightarrow> bool \<Rightarrow> event" where
  "call ps k w m = StepCall k w (r ps w) (r ps (r ps w)) (rv ps w) m"

definition run_log ::
  "PorterStemmer \<Rightarrow> rune list \<Rightarrow> bool \<Rightarrow> bool \<Rightarrow> rune list \<Rightarrow> bool \<Rightarrow> rune list \<Rightarrow> bool \<Rightarrow> event list" where
  "run_log ps e m1 m2 s2 m3 s3 m5 =
     [Regions e, call ps 1 e m1] @
     (if m1 then [] else [call ps 2 e m2]) @
     (if m1 \<or> m2 then [Regions s2, call ps 3 s2 m3] else [call ps 4 s2 m3]) @
     (if m3 then [Regions s3] else []) @
     [call ps 5 s3 m5]"


section \<open>Lookup in a tree built by Add\<close>

lemma label_Nil [simp]: "label [] n = Some (nword n, ngroup n)"
  by (simp add: label_def)

lemma label_Cons:
  "label (c # cs) n = (case children n c of None \<Rightarrow> None | Some m \<Rightarrow> label cs m)"
  by (simp add: label_def split: option.splits)

lemma label_newNode: "label p newNode = (if p = [] then Some ([], - 1) else None)"
  by (cases p) (simp_all add: label_Cons newNode_def)

lemma label_Add_loop:
  "label p (Add_loop q w g n) =
     (if p = q then Some (w, g)
      else if prefix p q then (case label p n of Some l \<Rightarrow> Some l | None \<Rightarrow> Some ([], - 1))
      else label p n)"
proof (induction q arbitrary: p n)
  case Nil
  show ?case by (cases p) (simp_all add: label_Cons)
next
  case (Cons c cs)
  show ?case
  proof (cases p)
    case Nil
    then show ?thesis by (simp split: option.splits)
  next
    case (Cons d ds)
    show ?thesis
    proof (cases "d = c")
      case True
      then show ?thesis
        using Cons
        by (simp add: label_Cons label_newNode Cons.IH split: option.splits)
    next
      case False
      then show ?thesis
        using Cons by (simp add: label_Cons split: option.splits)
    qed
  qed
qed

text \<open>Labels of a tree built from the empty tree by a list of registrations.\<close>

lemma AddAll_snoc: "AddAll st (es @ [(w, g)]) = Add (AddAll st es) w g"
  by (simp add: AddAll_def)

lemma label_AddAll:
  "label p (root (AddAll newSuffixTree es)) =
     (case map_of (rev es) (rev p) of
        Some g \<Rightarrow> Some (rev p, g)
      | None \<Rightarrow> if p = [] \<or> (\<exists>w \<in> fst ` set es. prefix p (rev w)) then Some ([], - 1) else None)"
proof (induction es arbitrary: p rule: rev_induct)
  case Nil
  show ?case by (simp add: AddAll_def newSuffixTree_def label_newNode)
next
  case (snoc e es)
  obtain w g where e: "e = (w, g)" by (cases e)
  show ?case
  proof (cases "p = rev w")
    case True
    then show ?thesis
      by (simp add: e AddAll_snoc Add_def label_Add_loop)
  next
    case False
    then have ne: "rev p \<noteq> w" by auto
    show ?thesis
      using False ne snoc.IH [of p]
      by (auto simp add: e AddAll_snoc Add_def label_Add_loop split: option.splits)
  qed
qed


lemma depth_ok_child:
  assumes "depth_ok n k" and "children n c = Some m"
  shows "depth_ok m (Suc k)"
  unfolding depth_ok_def
proof (intro allI impI)
  fix q w g
  assume "label q m = Some (w, g)" and "w \<noteq> []"
  then have "label (c # q) n = Some (w, g)"
    using assms(2) by (simp add: label_Cons)
  with assms(1) \<open>w \<noteq> []\<close> have "length w = k + length (c # q)"
    unfolding depth_ok_def by blast
  then show "length w = Suc k + length q" by simp
qed

lemma depth_ok_word:
  "depth_ok n k \<Longrightarrow> nword n \<noteq> [] \<Longrightarrow> length (nword n) = k"
  unfolding depth_ok_def by (metis label_Nil add.right_neutral list.size(3))

lemma LongestSuffix_loop_deepest:
  "depth_ok n k \<Longrightarrow> sz \<le> int k \<Longrightarrow>
   LongestSuffix_loop rs n (cur, sz, grp) =
     (case deepest rs n of
        None \<Rightarrow> (cur, sz, grp)
      | Some (w, g) \<Rightarrow> (w, int (length w), g))"
proof (induction rs arbitrary: n k cur sz grp)
  case Nil
  show ?case by simp
next
  case (Cons c cs)
  show ?case
  proof (cases "children n c")
    case None
    then show ?thesis by simp
  next
    case (Some m)
    have dm: "depth_ok m (Suc k)"
      using Cons.prems(1) Some by (rule depth_ok_child)
    show ?thesis
    proof (cases "nword m = []")
      case True
      have "sz \<le> int (Suc k)" using Cons.prems(2) by simp
      from Cons.IH [OF dm this, of cur grp] show ?thesis
        using Some True by (simp split: option.splits)
    next
      case False
      have len: "length (nword m) = Suc k"
        using dm False by (rule depth_ok_word)
      have "int (Suc k) \<le> int (Suc k)" by simp
      from Cons.IH [OF dm this, of "nword m" "ngroup m"] show ?thesis
        using Some False len Cons.prems(2) by (simp add: Let_def split: option.splits)
    qed
  qed
qed

lemma deepest_None_iff:
  "deepest rs n = None \<longleftrightarrow>
     (\<forall>q w g. q \<noteq> [] \<longrightarrow> prefix q rs \<longrightarrow> label q n = Some (w, g) \<longrightarrow> w = [])"
proof (induction rs arbitrary: n)
  case Nil
  show ?case by simp
next
  case (Cons c cs)
  show ?case
  proof (cases "children n c")
    case None
    then show ?thesis
      by (auto simp add: label_Cons prefix_Cons)
  next
    case (Some m)
    show ?thesis
    proof
      assume d: "deepest (c # cs) n = None"
      then have d1: "deepest cs m = None" and w: "nword m = []"
        using Some by (auto split: option.splits if_splits)
      show "\<forall>q w g. q \<noteq> [] \<longrightarrow> prefix q (c # cs) \<longrightarrow> label q n = Some (w, g) \<longrightarrow> w = []"
      proof (intro allI impI)
        fix q w g
        assume q: "q \<noteq> []" "prefix q (c # cs)" "label q n = Some (w, g)"
        then obtain q' where q': "q = c # q'" "prefix q' cs"
          by (auto simp add: prefix_Cons)
        with q Some have l: "label q' m = Some (w, g)" by (simp add: label_Cons)
        show "w = []"
        proof (cases "q' = []")
          case True
          with l w show ?thesis by simp
        next
          case False
          with d1 Cons.IH [of m] q'(2) l show ?thesis by blast
        qed
      qed
    next
      assume a: "\<forall>q w g. q \<noteq> [] \<longrightarrow> prefix q (c # cs) \<longrightarrow> label q n = Some (w, g) \<longrightarrow> w = []"
      have "nword m = []"
        using a [rule_format, of "[c]" "nword m" "ngroup m"] Some by (simp add: label_Cons)
      moreover have "deepest cs m = None"
        unfolding Cons.IH
      proof (intro allI impI)
        fix q w g
        assume "q \<noteq> []" "prefix q cs" "label q m = Some (w, g)"
        then show "w = []"
          using a [rule_format, of "c # q" w g] Some by (simp add: label_Cons)
      qed
      ultimately show "deepest (c # cs) n = None"
        using Some by simp
    qed
  qed
qed

lemma deepest_Some:
  "deepest rs n = Some (w, g) \<Longrightarrow>
     \<exists>q. q \<noteq> [] \<and> prefix q rs \<and> label q n = Some (w, g) \<and> w \<noteq> [] \<and>
         (\<forall>q' w' g'. prefix q' rs \<longrightarrow> length q < length q' \<longrightarrow>
                      label q' n = Some (w', g') \<longrightarrow> w' = [])"
proof (induction rs arbitrary: n)
  case Nil
  then show ?case by simp
next
  case (Cons c cs)
  from Cons.prems obtain m where m: "children n c = Some m"
    by (auto split: option.splits)
  show ?case
  proof (cases "deepest cs m")
    case None
    with Cons.prems m have w: "nword m \<noteq> []" "w = nword m" "g = ngroup m"
      by (auto split: if_splits)
    have "\<forall>q' w' g'. prefix q' (c # cs) \<longrightarrow> length [c] < length q' \<longrightarrow>
                      label q' n = Some (w', g') \<longrightarrow> w' = []"
    proof (intro allI impI)
      fix q' w' g'
      assume q: "prefix q' (c # cs)" "length [c] < length q'" "label q' n = Some (w', g')"
      then obtain q'' where q'': "q' = c # q''" "prefix q'' cs" "q'' \<noteq> []"
        by (cases q') (auto simp add: prefix_Cons)
      with q m have "label q'' m = Some (w', g')" by (simp add: label_Cons)
      with None q'' show "w' = []"
        unfolding deepest_None_iff by blast
    qed
    moreover have "label [c] n = Some (w, g)"
      using m w by (simp add: label_Cons)
    ultimately show ?thesis
      using w by (intro exI [of _ "[c]"]) simp
  next
    case (Some res)
    with Cons.prems m have "deepest cs m = Some (w, g)" by simp
    from Cons.IH [OF this] obtain q where
      q: "q \<noteq> []" "prefix q cs" "label q m = Some (w, g)" "w \<noteq> []"
         "\<forall>q' w' g'. prefix q' cs \<longrightarrow> length q < length q' \<longrightarrow>
                      label q' m = Some (w', g') \<longrightarrow> w' = []"
      by blast
    have "\<forall>q' w' g'. prefix q' (c # cs) \<longrightarrow> length (c # q) < length q' \<longrightarrow>
                      label q' n = Some (w', g') \<longrightarrow> w' = []"
    proof (intro allI impI)
      fix q' w' g'
      assume a: "prefix q' (c # cs)" "length (c # q) < length q'" "label q' n = Some (w', g')"
      then obtain q'' where q'': "q' = c # q''" "prefix q'' cs" "length q < length q''"
        by (cases q') (auto simp add: prefix_Cons)
      with a m have "label q'' m = Some (w', g')" by (simp add: label_Cons)
      with q(5) q'' show "w' = []" by blast
    qed
    then show ?thesis
      using q m by (intro exI [of _ "c # q"]) (simp add: label_Cons)
  qed
qed


text \<open>Trees built by registrations: which paths carry which words.\<close>

lemma label_AddAll_word:
  assumes "label q (root (AddAll newSuffixTree es)) = Some (w, g)" and "w \<noteq> []"
  shows "w = rev q \<and> map_of (rev es) w = Some g"
  using assms by (auto simp add: label_AddAll split: option.splits if_splits)

lemma label_AddAll_registered:
  assumes "s \<in> fst ` set es"
  shows "\<exists>g. map_of (rev es) s = Some g \<and>
             label (rev s) (root (AddAll newSuffixTree es)) = Some (s, g)"
proof -
  from assms have "s \<in> fst ` set (rev es)" by simp
  then have "map_of (rev es) s \<noteq> None"
    by (simp only: map_of_eq_None_iff not_not)
  then obtain g where "map_of (rev es) s = Some g" by blast
  then show ?thesis by (simp add: label_AddAll)
qed

lemma depth_ok_AddAll: "depth_ok (root (AddAll newSuffixTree es)) 0"
  unfolding depth_ok_def using label_AddAll_word by fastforce

lemma LongestSuffix_AddAll_deepest:
  "LongestSuffix (AddAll newSuffixTree es) w =
     (case deepest (rev w) (root (AddAll newSuffixTree es)) of
        None \<Rightarrow> ([], - 1)
      | Some res \<Rightarrow> res)"
proof -
  have "(- 1 :: int) \<le> int 0" by simp
  from LongestSuffix_loop_deepest [OF depth_ok_AddAll this, of "rev w" es "[]" "- 1"]
  show ?thesis
    by (simp add: LongestSuffix_def split: option.splits)
qed

lemma LongestSuffix_AddAll_sound:
  assumes "LongestSuffix (AddAll newSuffixTree es) w = (s, g)"
  shows "(s = [] \<and> g = - 1) \<or>
         (s \<noteq> [] \<and> suffix s w \<and> (s, g) \<in> set es \<and> map_of (rev es) s = Some g)"
proof (cases "deepest (rev w) (root (AddAll newSuffixTree es))")
  case None
  with assms show ?thesis by (simp add: LongestSuffix_AddAll_deepest)
next
  case (Some res)
  with assms have d: "deepest (rev w) (root (AddAll newSuffixTree es)) = Some (s, g)"
    by (simp add: LongestSuffix_AddAll_deepest)
  from deepest_Some [OF d] obtain q where
    q: "prefix q (rev w)" "label q (root (AddAll newSuffixTree es)) = Some (s, g)" "s \<noteq> []"
    by blast
  from label_AddAll_word [OF q(2,3)] have sq: "s = rev q" and mo: "map_of (rev es) s = Some g"
    by blast+
  from q(1) sq have "suffix s w" by (simp add: suffix_to_prefix)
  moreover from mo have "(s, g) \<in> set es" using map_of_SomeD by fastforce
  ultimately show ?thesis using q(3) mo by simp
qed

lemma LongestSuffix_AddAll_none:
  assumes "\<forall>s \<in> fst ` set es. s \<noteq> [] \<longrightarrow> \<not> suffix s w"
  shows "LongestSuffix (AddAll newSuffixTree es) w = ([], - 1)"
proof -
  obtain s g where r: "LongestSuffix (AddAll newSuffixTree es) w = (s, g)"
    by (cases "LongestSuffix (AddAll newSuffixTree es) w")
  from LongestSuffix_AddAll_sound [OF r] assms show ?thesis
    unfolding r by force
qed

lemma LongestSuffix_AddAll_longest:
  assumes reg: "s \<in> fst ` set es" and ne: "s \<noteq> []" and suf: "suffix s w"
    and mx: "\<forall>s' \<in> fst ` set es. suffix s' w \<longrightarrow> length s' \<le> length s"
  shows "\<exists>g. map_of (rev es) s = Some g \<and> LongestSuffix (AddAll newSuffixTree es) w = (s, g)"
proof -
  let ?t = "root (AddAll newSuffixTree es)"
  from label_AddAll_registered [OF reg] obtain g where
    g: "map_of (rev es) s = Some g" "label (rev s) ?t = Some (s, g)" by blast
  have pre: "prefix (rev s) (rev w)" using suf by (simp add: suffix_to_prefix)
  have "deepest (rev w) ?t \<noteq> None"
    unfolding deepest_None_iff using g(2) pre ne by fastforce
  then obtain s' g' where d: "deepest (rev w) ?t = Some (s', g')" by auto
  from deepest_Some [OF d] obtain q where
    q: "prefix q (rev w)" "label q ?t = Some (s', g')" "s' \<noteq> []"
       "\<forall>q' w' g'. prefix q' (rev w) \<longrightarrow> length q < length q' \<longrightarrow>
                    label q' ?t = Some (w', g') \<longrightarrow> w' = []"
    by blast
  from label_AddAll_word [OF q(2,3)] have sq: "s' = rev q" and mo: "map_of (rev es) s' = Some g'"
    by blast+
  have "\<not> length q < length (rev s)"
    using q(4) pre g(2) ne by blast
  moreover have "length s' \<le> length s"
  proof -
    from mo have "(s', g') \<in> set es" using map_of_SomeD by fastforce
    then have "s' \<in> fst ` set es" by force
    moreover from q(1) sq have "suffix s' w" by (simp add: suffix_to_prefix)
    ultimately show ?thesis using mx by blast
  qed
  ultimately have "length q = length (rev s)" using sq by simp
  with q(1) pre have "q = rev s"
    by (metis prefix_order.eq_iff prefix_same_cases prefix_length_le le_antisym prefix_length_prefix)
  with sq have "s' = s" by simp
  with mo g(1) have "g' = g" by simp
  with d \<open>s' = s\<close> g(1) show ?thesis
    by (simp add: LongestSuffix_AddAll_deepest)
qed


section \<open>Strings and registrations\<close>

lemma HasSuffix_iff: "HasSuffix s sfx \<longleftrightarrow> suffix sfx s"
proof
  assume "HasSuffix s sfx"
  then have "drop (length s - length sfx) s = sfx" by (simp add: HasSuffix_def)
  then show "suffix sfx s" by (metis suffix_drop)
next
  assume "suffix sfx s"
  then obtain zs where "s = zs @ sfx" by (auto simp add: suffix_def)
  then show "HasSuffix s sfx" by (simp add: HasSuffix_def)
qed

lemma longest_registered_char:
  "(case longest_registered es w of (s, g) \<Rightarrow>
      (s = [] \<and> g = - 1 \<and> (\<forall>s' \<in> fst ` set es. s' \<noteq> [] \<longrightarrow> \<not> suffix s' w)) \<or>
      (s \<noteq> [] \<and> suffix s w \<and> s \<in> fst ` set es \<and> map_of (rev es) s = Some g \<and>
       (\<forall>s' \<in> fst ` set es. suffix s' w \<longrightarrow> length s' \<le> length s)))"
proof (induction es rule: rev_induct)
  case Nil
  show ?case by (simp add: longest_registered_def)
next
  case (snoc e es)
  obtain s k where e: "e = (s, k)" by (cases e)
  obtain cur g where c: "longest_registered es w = (cur, g)"
    by (cases "longest_registered es w")
  have step: "longest_registered (es @ [e]) w =
      (if s \<noteq> [] \<and> suffix s w \<and> length cur \<le> length s then (s, k) else (cur, g))"
    using c by (simp add: longest_registered_def e HasSuffix_iff)
  from snoc.IH c have ih:
    "(cur = [] \<and> g = - 1 \<and> (\<forall>s' \<in> fst ` set es. s' \<noteq> [] \<longrightarrow> \<not> suffix s' w)) \<or>
     (cur \<noteq> [] \<and> suffix cur w \<and> cur \<in> fst ` set es \<and> map_of (rev es) cur = Some g \<and>
      (\<forall>s' \<in> fst ` set es. suffix s' w \<longrightarrow> length s' \<le> length cur))"
    by simp
  show ?case
  proof (cases "s \<noteq> [] \<and> suffix s w \<and> length cur \<le> length s")
    case True
    have "\<forall>s' \<in> fst ` set (es @ [e]). suffix s' w \<longrightarrow> length s' \<le> length s"
      using ih True e by force
    then show ?thesis
      using True step e by simp
  next
    case False
    have neq: "s \<noteq> cur \<or> cur = []"
      using False ih by auto
    show ?thesis
    proof (cases "cur = []")
      case True
      with ih have "g = - 1" and "\<forall>s' \<in> fst ` set es. s' \<noteq> [] \<longrightarrow> \<not> suffix s' w" by auto
      moreover from True False have "s \<noteq> [] \<longrightarrow> \<not> suffix s w" by auto
      ultimately show ?thesis
        using True False step e by auto
    next
      case cne: False
      with ih have f: "suffix cur w" "cur \<in> fst ` set es" "map_of (rev es) cur = Some g"
        "\<forall>s' \<in> fst ` set es. suffix s' w \<longrightarrow> length s' \<le> length cur" by auto
      have sc: "s \<noteq> cur" using neq cne by simp
      have "suffix s w \<longrightarrow> length s \<le> length cur"
        using False by (cases "s = []") auto
      with f(4) have "\<forall>s' \<in> fst ` set (es @ [e]). suffix s' w \<longrightarrow> length s' \<le> length cur"
        using e by auto
      moreover have "map_of (rev (es @ [e])) cur = Some g"
        using f(3) sc e by simp
      ultimately show ?thesis
        using False step cne f(1,2) by auto
    qed
  qed
qed

lemma LongestSuffix_AddAll_eq:
  "LongestSuffix (AddAll newSuffixTree es) w = longest_registered es w"
proof -
  obtain s g where c: "longest_registered es w = (s, g)"
    by (cases "longest_registered es w")
  from longest_registered_char [of es w] c have
    "(s = [] \<and> g = - 1 \<and> (\<forall>s' \<in> fst ` set es. s' \<noteq> [] \<longrightarrow> \<not> suffix s' w)) \<or>
     (s \<noteq> [] \<and> suffix s w \<and> s \<in> fst ` set es \<and> map_of (rev es) s = Some g \<and>
      (\<forall>s' \<in> fst ` set es. suffix s' w \<longrightarrow> length s' \<le> length s))"
    by simp
  then show ?thesis
  proof
    assume "s = [] \<and> g = - 1 \<and> (\<forall>s' \<in> fst ` set es. s' \<noteq> [] \<longrightarrow> \<not> suffix s' w)"
    then show ?thesis
      using LongestSuffix_AddAll_none [of es w] c by simp
  next
    assume a: "s \<noteq> [] \<and> suffix s w \<and> s \<in> fst ` set es \<and> map_of (rev es) s = Some g \<and>
      (\<forall>s' \<in> fst ` set es. suffix s' w \<longrightarrow> length s' \<le> length s)"
    then have "\<exists>g. map_of (rev es) s = Some g \<and> LongestSuffix (AddAll newSuffixTree es) w = (s, g)"
      by (intro LongestSuffix_AddAll_longest) simp_all
    with a c show ?thesis by auto
  qed
qed

lemma isVowel_New: "isVowel NewPorterStemmer c \<longleftrightarrow> c \<in> set vowelsRunes"
proof -
  have "\<And>m. (foldl (\<lambda>m rn. m(rn \<mapsto> True)) m xs) c =
            (if c \<in> set xs then Some True else m c)" for xs :: "rune list"
    by (induction xs) auto
  then show ?thesis
    by (simp add: isVowel_def NewPorterStemmer_def)
qed

lemma trees_New:
  "step1SuffixTree NewPorterStemmer = AddAll newSuffixTree step1Suffixes"
  "step2SuffixTree NewPorterStemmer = AddAll newSuffixTree step2Suffixes"
  "step4SuffixTree NewPorterStemmer = AddAll newSuffixTree step4Suffixes"
  "step5SuffixTree NewPorterStemmer = AddAll newSuffixTree step5Suffixes"
  by (simp_all add: NewPorterStemmer_def)

lemma LastIndex_append: "LastIndex (y @ x) x = int (length y)"
proof -
  have "LastIndex_from (y @ x) x (length y) = int (length y)"
    by (cases "length y") simp_all
  then show ?thesis by (simp add: LastIndex_def)
qed

lemma slice_to_append: "slice_to (y @ x) (LastIndex (y @ x) x) = Some y"
  by (simp add: LastIndex_append slice_to_def)

lemma LastIndex_suffix:
  "suffix x s \<Longrightarrow> LastIndex s x = int (length s) - int (length x)"
  by (auto simp add: suffix_def LastIndex_append)

lemma slice_to_suffix:
  "suffix x s \<Longrightarrow> slice_to s (LastIndex s x) = Some (take (length s - length x) s)"
  by (auto simp add: suffix_def slice_to_append)


section \<open>The regions\<close>

lemma r_loop_suffix: "suffix (r_loop ps w i) w"
proof (induction ps w i rule: r_loop.induct)
  case (1 ps runes i)
  show ?case
  proof (cases "int i < int (length runes) - 1")
    case False
    then show ?thesis by (simp add: r_loop.simps [of ps runes i])
  next
    case True
    show ?thesis
    proof (cases "isVowel ps (runes ! i) \<and> \<not> isVowel ps (runes ! (i + 1))")
      case t: True
      with True show ?thesis
        by (simp add: r_loop.simps [of ps runes i] suffix_drop)
    next
      case f: False
      from "1.IH" [OF True f] True f show ?thesis
        by (auto simp add: r_loop.simps [of ps runes i])
    qed
  qed
qed

lemma r_suffix: "suffix (r ps w) w"
  by (simp add: r_def r_loop_suffix)

lemma r_loop_first:
  "k \<le> i \<Longrightarrow> i + 1 < length w \<Longrightarrow> isVowel ps (w ! i) \<Longrightarrow> \<not> isVowel ps (w ! (i + 1)) \<Longrightarrow>
   (\<forall>j. k \<le> j \<and> j < i \<longrightarrow> \<not> (isVowel ps (w ! j) \<and> \<not> isVowel ps (w ! (j + 1)))) \<Longrightarrow>
   r_loop ps w k = drop (i + 2) w"
proof (induction ps w k rule: r_loop.induct)
  case (1 ps runes k)
  have guard: "int k < int (length runes) - 1"
    using "1.prems"(1,2) by simp
  show ?case
  proof (cases "k = i")
    case True
    with guard "1.prems"(3,4) show ?thesis
      by (simp add: r_loop.simps [of ps runes i])
  next
    case False
    with "1.prems"(1) have lt: "k < i" by simp
    with "1.prems"(5) have f: "\<not> (isVowel ps (runes ! k) \<and> \<not> isVowel ps (runes ! (k + 1)))"
      by simp
    have "r_loop ps runes (k + 1) = drop (i + 2) runes"
      using lt "1.prems" by (intro "1.IH" [OF guard f]) simp_all
    with guard f show ?thesis
      by (auto simp add: r_loop.simps [of ps runes k])
  qed
qed

lemma r_loop_none:
  "(\<forall>j. k \<le> j \<and> j + 1 < length w \<longrightarrow> \<not> (isVowel ps (w ! j) \<and> \<not> isVowel ps (w ! (j + 1)))) \<Longrightarrow>
   r_loop ps w k = []"
proof (induction ps w k rule: r_loop.induct)
  case (1 ps runes k)
  show ?case
  proof (cases "int k < int (length runes) - 1")
    case False
    then show ?thesis by (simp add: r_loop.simps [of ps runes k])
  next
    case True
    then have "k + 1 < length runes" by simp
    with "1.prems" have f: "\<not> (isVowel ps (runes ! k) \<and> \<not> isVowel ps (runes ! (k + 1)))"
      by simp
    have "r_loop ps runes (k + 1) = []"
      using "1.prems" by (intro "1.IH" [OF True f]) simp
    with True f show ?thesis
      by (auto simp add: r_loop.simps [of ps runes k])
  qed
qed

lemma rv_loop_suffix: "rv_loop ps v w i = Some res \<Longrightarrow> suffix res w"
proof (induction ps v w i rule: rv_loop.induct)
  case (1 ps v runes i)
  show ?case
  proof (cases "i < length runes")
    case False
    with "1.prems" show ?thesis by (simp add: rv_loop.simps [of ps v runes i])
  next
    case True
    show ?thesis
    proof (cases "isVowel ps (runes ! i) = v")
      case t: True
      with True "1.prems" show ?thesis
        by (auto simp add: rv_loop.simps [of ps v runes i] suffix_drop)
    next
      case f: False
      with True "1.prems" have "rv_loop ps v runes (i + 1) = Some res"
        by (simp add: rv_loop.simps [of ps v runes i])
      with "1.IH" [OF True f] show ?thesis by simp
    qed
  qed
qed

lemma rv_suffix: "suffix (rv ps w) w"
  by (auto simp add: rv_def suffix_drop split: option.splits dest: rv_loop_suffix)

lemma rv_loop_None:
  "rv_loop ps v w i = None \<longleftrightarrow> (\<forall>j. i \<le> j \<and> j < length w \<longrightarrow> isVowel ps (w ! j) \<noteq> v)"
proof (induction ps v w i rule: rv_loop.induct)
  case (1 ps v runes i)
  show ?case
  proof (cases "i < length runes")
    case False
    then show ?thesis by (auto simp add: rv_loop.simps [of ps v runes i])
  next
    case True
    show ?thesis
    proof (cases "isVowel ps (runes ! i) = v")
      case t: True
      with True show ?thesis
        by (auto simp add: rv_loop.simps [of ps v runes i])
    next
      case f: False
      have "(\<forall>j. i \<le> j \<and> j < length runes \<longrightarrow> isVowel ps (runes ! j) \<noteq> v) \<longleftrightarrow>
            (\<forall>j. i + 1 \<le> j \<and> j < length runes \<longrightarrow> isVowel ps (runes ! j) \<noteq> v)"
        using f by (metis Suc_eq_plus1 Suc_leI le_neq_implies_less le_simps(3) less_imp_le_nat)
      with "1.IH" [OF True f] True f show ?thesis
        by (simp add: rv_loop.simps [of ps v runes i])
    qed
  qed
qed

text \<open>
  When the second rune is not a vowel and no vowel follows from index 2 on, the first
  loop of \<open>rv\<close> ends without returning and the last line of the function decides.
\<close>

lemma rv_falls_through:
  assumes "3 \<le> length w" and "\<not> isVowel ps (w ! 1)"
    and "\<forall>j. 2 \<le> j \<and> j < length w \<longrightarrow> \<not> isVowel ps (w ! j)"
  shows "rv ps w = drop 3 w"
proof -
  have "rv_loop ps True w 2 = None"
    unfolding rv_loop_None using assms(3) by simp
  with assms(1,2) show ?thesis by (simp add: rv_def)
qed


section \<open>Expansion and contraction of nasalised vowels\<close>

lemma Replace_single:
  "Replace s [c] new = concat (map (\<lambda>x. if x = c then new else [x]) s)"
  by (induction s) auto

lemma expandNasalisedVowels_eq:
  "expandNasalisedVowels ps w = concat (map expand_rune w)"
  by (induction w) (simp_all add: expandNasalisedVowels_def str_def Replace_single expand_rune_def)

lemma Replace_a_tilde_head:
  "Replace (y # zs) [97, 126] [227] = c # u \<Longrightarrow> c = 126 \<Longrightarrow> y = 126"
  by (simp split: if_splits)

lemma contractNasalisedVowels_eq:
  "contractNasalisedVowels ps w = contract_scan w"
proof -
  have "Replace (Replace w [97, 126] [227]) [111, 126] [245] = contract_scan w"
  proof (induction w rule: contract_scan.induct)
    case (1 x y zs)
    show ?case
    proof (cases "x = 97 \<and> y = 126")
      case True
      with 1 show ?thesis by simp
    next
      case na: False
      show ?thesis
      proof (cases "x = 111 \<and> y = 126")
        case True
        with 1 na show ?thesis by simp
      next
        case no: False
        have A: "Replace (x # y # zs) [97, 126] [227] = x # Replace (y # zs) [97, 126] [227]"
          using na by auto
        have "\<not> prefix [111, 126] (x # Replace (y # zs) [97, 126] [227])"
        proof
          assume p: "prefix [111, 126] (x # Replace (y # zs) [97, 126] [227])"
          then have x: "x = 111" by simp
          from p obtain u where "Replace (y # zs) [97, 126] [227] = 126 # u"
            by (auto simp add: prefix_def)
          then have "y = 126" by (rule Replace_a_tilde_head) simp
          with x no show False by simp
        qed
        then have B: "Replace (x # Replace (y # zs) [97, 126] [227]) [111, 126] [245] =
                   x # Replace (Replace (y # zs) [97, 126] [227]) [111, 126] [245]"
          by simp
        have C: "contract_scan (x # y # zs) = x # contract_scan (y # zs)"
          using na no by auto
        show ?thesis
          unfolding A B C 1(3) [OF na no] ..
      qed
    qed
  next
    case (2 x)
    show ?case by simp
  next
    case 3
    show ?case by simp
  qed
  then show ?thesis
    by (simp add: contractNasalisedVowels_def str_def)
qed

lemma contract_scan_tilde: "contract_scan (126 # t) = 126 # contract_scan t"
  by (cases t) simp_all

lemma contract_scan_no_tilde: "126 \<notin> set z \<Longrightarrow> contract_scan z = z"
  by (induction z rule: contract_scan.induct) auto

lemma length_contract_scan_le: "length (contract_scan z) \<le> length z"
  by (induction z rule: contract_scan.induct) auto

lemma length_contract_scan_Cons:
  "length (contract_scan (x # t)) \<le> Suc (length (contract_scan t))"
proof (cases t)
  case Nil
  then show ?thesis by simp
next
  case (Cons y zs)
  show ?thesis
  proof (cases "y = 126")
    case True
    then show ?thesis
      using Cons by (simp add: contract_scan_tilde)
  next
    case False
    then show ?thesis
      using Cons by simp
  qed
qed

lemma length_contract_scan_prefix:
  "length (contract_scan y) \<le> length (contract_scan (y @ z))"
proof (induction y rule: contract_scan.induct)
  case (1 x y zs)
  then show ?case by simp
next
  case (2 x)
  show ?case by (cases z) simp_all
next
  case 3
  show ?case by simp
qed

lemma length_contract_scan_take:
  "length (contract_scan (take k x)) \<le> length (contract_scan x)"
  using length_contract_scan_prefix [of "take k x" "drop k x"] by simp

lemma length_contract_scan_append_le:
  "length (contract_scan (y @ z)) \<le> length (contract_scan y) + length z"
proof (induction y rule: contract_scan.induct)
  case (1 x y zs)
  then show ?case by simp
next
  case (2 x)
  show ?case
    using length_contract_scan_Cons [of x z] length_contract_scan_le [of z] by simp
next
  case 3
  show ?case by (simp add: length_contract_scan_le)
qed

lemma length_contract_scan_append_no_tilde:
  "126 \<notin> set z \<Longrightarrow> length (contract_scan (y @ z)) = length (contract_scan y) + length z"
proof (induction y rule: contract_scan.induct)
  case (1 x y zs)
  then show ?case by simp
next
  case (2 x)
  then show ?case by (cases z) (simp_all add: contract_scan_no_tilde)
next
  case 3
  then show ?case by (simp add: contract_scan_no_tilde)
qed

text \<open>Replacing a tilde-free suffix by a string that is not longer cannot add runes.\<close>

lemma length_contract_scan_replace:
  assumes "126 \<notin> set sfx" and "length rep \<le> length sfx"
  shows "length (contract_scan (y @ rep)) \<le> length (contract_scan (y @ sfx))"
  using length_contract_scan_append_le [of y rep]
    length_contract_scan_append_no_tilde [OF assms(1), of y] assms(2)
  by simp

lemma length_contract_expand:
  "length (contract_scan (concat (map expand_rune w))) \<le> length w"
proof (induction w)
  case Nil
  show ?case by simp
next
  case (Cons x w)
  define t where "t = concat (map expand_rune w)"
  have ih: "length (contract_scan t) \<le> length w"
    using Cons by (simp add: t_def)
  have "length (contract_scan (expand_rune x @ t)) \<le> Suc (length (contract_scan t))"
    using length_contract_scan_Cons [of x t] by (simp add: expand_rune_def)
  with ih show ?case by (simp add: t_def)
qed

lemma expand_head_no_tilde:
  "126 \<notin> set w \<Longrightarrow> concat (map expand_rune w) \<noteq> 126 # u"
  by (cases w) (auto simp add: expand_rune_def)

lemma contract_expand:
  "126 \<notin> set w \<Longrightarrow> contract_scan (concat (map expand_rune w)) = w"
proof (induction w)
  case Nil
  show ?case by simp
next
  case (Cons x w)
  define t where "t = concat (map expand_rune w)"
  from Cons have ih: "contract_scan t = w" and x: "x \<noteq> 126" and w: "126 \<notin> set w"
    by (auto simp add: t_def)
  have "contract_scan (expand_rune x @ t) = x # contract_scan t"
  proof (cases "x = 227 \<or> x = 245")
    case True
    then show ?thesis by (auto simp add: expand_rune_def)
  next
    case False
    have "contract_scan (x # t) = x # contract_scan t"
    proof (cases t)
      case Nil
      then show ?thesis by simp
    next
      case (Cons y zs)
      with expand_head_no_tilde [OF w, of zs] have "y \<noteq> 126" by (auto simp add: t_def)
      with Cons show ?thesis by simp
    qed
    with False show ?thesis by (simp add: expand_rune_def)
  qed
  with ih show ?case by (simp add: t_def)
qed


section \<open>The steps\<close>

text \<open>
  A suffix that a tree of the stemmer returns is registered in that tree and is a
  trailing part of the string that was looked up.
\<close>

lemma LongestSuffix_registered:
  assumes "LongestSuffix (AddAll newSuffixTree es) w = (sfx, g)" and "sfx \<noteq> []"
  shows "suffix sfx w" and "(sfx, g) \<in> set es"
  using LongestSuffix_AddAll_sound [OF assms(1)] assms(2) by simp_all

lemma step1_table:
  assumes "(sfx, g) \<in> set step1Suffixes"
  shows "g = 1 \<or> g = 2 \<or> g = 3 \<Longrightarrow> 126 \<notin> set sfx \<and> 5 \<le> length sfx"
    and "g = 8 \<Longrightarrow> 126 \<notin> set sfx \<and> 3 \<le> length sfx"
  using assms by (auto simp add: step1Suffixes_def str_def)

lemma slice_within:
  assumes "suffix x rg" and "suffix rg word"
  shows "slice_to word (LastIndex word x) = Some (take (length word - length x) word)"
  using assms by (intro slice_to_suffix) (rule suffix_order.trans)

text \<open>
  Deleting a part \<open>p\<close> in front of the suffix, as the case of "amente" does after it
  has deleted the suffix itself.
\<close>

lemma strip_before:
  assumes "suffix (p @ sfx) rg" and "suffix rg word"
  shows "\<exists>z. word = z @ p @ sfx \<and> take (length word - length sfx) word = z @ p \<and>
             slice_to (z @ p) (LastIndex (z @ p) p) = Some z"
proof -
  from assms have "suffix (p @ sfx) word" by (rule suffix_order.trans)
  then obtain z where z: "word = z @ p @ sfx" by (auto simp add: suffix_def)
  then have "take (length word - length sfx) word = z @ p" by simp
  with z show ?thesis by (auto simp add: slice_to_append)
qed

lemma step1_amente:
  assumes r1: "suffix r1 word" and r2: "suffix r2 r1"
    and ls: "LongestSuffix (step1SuffixTree ps) word = (sfx, 4)" and ne: "sfx \<noteq> []"
  shows "\<exists>res m k. step1 ps word r1 r2 rV = Some (res, m) \<and> (\<not> m \<longrightarrow> res = word) \<and>
           res = take k word"
proof -
  have r2w: "suffix r2 word" using r2 r1 by (rule suffix_order.trans)
  have ativ: "str ''ativ'' = str ''at'' @ str ''iv''" by (simp add: str_def)
  show ?thesis
  proof (cases "suffix sfx r1")
    case False
    have no: "\<not> suffix (p @ sfx) r2" for p
    proof
      assume "suffix (p @ sfx) r2"
      then have "suffix sfx r2" by (rule suffix_appendD)
      then have "suffix sfx r1" using r2 by (rule suffix_order.trans)
      with False show False by simp
    qed
    have "step1 ps word r1 r2 rV = Some (word, False)"
      using False ne by (simp add: step1_def ls HasSuffix_iff no)
    then show ?thesis by (intro exI [of _ word] exI [of _ False] exI [of _ "length word"]) simp
  next
    case True
    define y where "y = take (length word - length sfx) word"
    have first: "slice_to word (LastIndex word sfx) = Some y"
      unfolding y_def using True r1 by (rule slice_within)
    have run: "step1 ps word r1 r2 rV =
        do { res \<leftarrow>
               (if suffix (str ''iv'' @ sfx) r2 then
                  do { res \<leftarrow> slice_to y (LastIndex y (str ''iv''));
                       (if suffix (str ''ativ'' @ sfx) r2
                        then slice_to res (LastIndex res (str ''at''))
                        else Some res) }
                else if suffix (str ''os'' @ sfx) r2 then slice_to y (LastIndex y (str ''os''))
                else if suffix (str ''ic'' @ sfx) r2 then slice_to y (LastIndex y (str ''ic''))
                else if suffix (str ''ad'' @ sfx) r2 then slice_to y (LastIndex y (str ''ad''))
                else Some y);
             Some (res, True) }"
      using True ne by (simp add: step1_def ls HasSuffix_iff first)
    have one: "\<exists>k. slice_to y (LastIndex y p) = Some (take k word)"
      if "suffix (p @ sfx) r2" for p
    proof -
      from strip_before [OF that r2w] obtain z where
        z: "word = z @ p @ sfx" "y = z @ p" "slice_to (z @ p) (LastIndex (z @ p) p) = Some z"
        unfolding y_def by blast
      from z(1) have "z = take (length z) word" by simp
      with z(2,3) show ?thesis by metis
    qed
    have two: "\<exists>z k. slice_to y (LastIndex y (str ''iv'')) = Some z \<and>
                 slice_to z (LastIndex z (str ''at'')) = Some (take k word)"
      if "suffix (str ''ativ'' @ sfx) r2"
    proof -
      from that r2w have "suffix (str ''ativ'' @ sfx) word" by (rule suffix_order.trans)
      then obtain z where z: "word = z @ str ''at'' @ str ''iv'' @ sfx"
        by (auto simp add: suffix_def ativ)
      then have y: "y = (z @ str ''at'') @ str ''iv''" by (simp add: y_def)
      have "slice_to y (LastIndex y (str ''iv'')) = Some (z @ str ''at'')"
        unfolding y by (rule slice_to_append)
      moreover have "slice_to (z @ str ''at'') (LastIndex (z @ str ''at'') (str ''at'')) = Some z"
        by (rule slice_to_append)
      moreover from z have "z = take (length z) word" by simp
      ultimately show ?thesis by metis
    qed
    have "\<exists>k. step1 ps word r1 r2 rV = Some (take k word, True)"
    proof (cases "suffix (str ''iv'' @ sfx) r2")
      case iv: True
      show ?thesis
      proof (cases "suffix (str ''ativ'' @ sfx) r2")
        case True
        from two [OF True] obtain z k where
          "slice_to y (LastIndex y (str ''iv'')) = Some z"
          "slice_to z (LastIndex z (str ''at'')) = Some (take k word)"
          by blast
        then show ?thesis using iv True by (auto simp add: run)
      next
        case False
        from one [OF iv] obtain k where "slice_to y (LastIndex y (str ''iv'')) = Some (take k word)"
          by blast
        then show ?thesis using iv False by (auto simp add: run)
      qed
    next
      case niv: False
      show ?thesis
      proof (cases "suffix (str ''os'' @ sfx) r2")
        case True
        from one [OF True] niv True show ?thesis by (auto simp add: run)
      next
        case nos: False
        show ?thesis
        proof (cases "suffix (str ''ic'' @ sfx) r2")
          case True
          from one [OF True] niv nos True show ?thesis by (auto simp add: run)
        next
          case nic: False
          show ?thesis
          proof (cases "suffix (str ''ad'' @ sfx) r2")
            case True
            from one [OF True] niv nos nic True show ?thesis by (auto simp add: run)
          next
            case False
            with niv nos nic show ?thesis
              by (auto simp add: run y_def)
          qed
        qed
      qed
    qed
    then show ?thesis by auto
  qed
qed

lemma step_ok_Some [simp]:
  "step_ok word (Some (res, m)) \<longleftrightarrow>
     (\<not> m \<longrightarrow> res = word) \<and> length (contract_scan res) \<le> length (contract_scan word)"
  by (simp add: step_ok_def)

lemma step_ok_None [simp]: "\<not> step_ok word None"
  by (simp add: step_ok_def)

lemma step_okD:
  "step_ok word x \<Longrightarrow>
     \<exists>res m. x = Some (res, m) \<and> (\<not> m \<longrightarrow> res = word) \<and>
       length (contract_scan res) \<le> length (contract_scan word)"
  by (cases x) (auto simp add: step_ok_def)

lemma step1_outcome:
  assumes r1: "suffix r1 word" and r2: "suffix r2 r1"
  shows "step_ok word (step1 NewPorterStemmer word r1 r2 rV)"
proof -
  obtain sfx g where ls: "LongestSuffix (step1SuffixTree NewPorterStemmer) word = (sfx, g)"
    by (cases "LongestSuffix (step1SuffixTree NewPorterStemmer) word")
  show ?thesis
  proof (cases "sfx = []")
    case True
    then show ?thesis by (simp add: step1_def ls)
  next
    case False
    from ls have ls': "LongestSuffix (AddAll newSuffixTree step1Suffixes) word = (sfx, g)"
      by (simp add: trees_New)
    from LongestSuffix_registered [OF ls' False]
    have sw: "suffix sfx word" and mem: "(sfx, g) \<in> set step1Suffixes" .
    from sw obtain y where y: "word = y @ sfx" by (auto simp add: suffix_def)
    have cut: "slice_to word (LastIndex word sfx) = Some y"
      unfolding y by (rule slice_to_append)
    have r2w: "suffix r2 word" using r2 r1 by (rule suffix_order.trans)
    have D: "slice_to word (LastIndex word x) = Some (take (length word - length x) word)"
      if "suffix x r2" for x
      using that r2w by (rule slice_within)
    note T = length_contract_scan_take
    consider "g = 0" | "g = 1 \<or> g = 2 \<or> g = 3" | "g = 4" | "g = 5" | "g = 6" | "g = 7" | "g = 8"
      | "g \<noteq> 0 \<and> g \<noteq> 1 \<and> g \<noteq> 2 \<and> g \<noteq> 3 \<and> g \<noteq> 4 \<and> g \<noteq> 5 \<and> g \<noteq> 6 \<and> g \<noteq> 7 \<and> g \<noteq> 8"
      by blast
    then show ?thesis
    proof cases
      case 1
      then show ?thesis
        using False by (simp add: step1_def ls HasSuffix_iff D T)
    next
      case 2
      from step1_table(1) [OF mem 2] have nt: "126 \<notin> set sfx" and len: "5 \<le> length sfx"
        by simp_all
      have K: "length (contract_scan (y @ rep)) \<le> length (contract_scan word)"
        if "length rep \<le> 5" for rep
        unfolding y using nt that len by (intro length_contract_scan_replace) simp_all
      have "length (str ''log'') \<le> 5" "length (str ''u'') \<le> 5" "length (str ''ente'') \<le> 5"
        by (simp_all add: str_def)
      then have K3: "length (contract_scan (y @ str ''log'')) \<le> length (contract_scan word)"
        "length (contract_scan (y @ str ''u'')) \<le> length (contract_scan word)"
        "length (contract_scan (y @ str ''ente'')) \<le> length (contract_scan word)"
        by (simp_all only: K)
      from 2 consider "g = 1" | "g = 2" | "g = 3" by blast
      then show ?thesis
      proof cases
        case 1
        then show ?thesis
          using False by (simp add: step1_def ls HasSuffix_iff cut K3)
      next
        case 2
        then show ?thesis
          using False by (simp add: step1_def ls HasSuffix_iff cut K3)
      next
        case 3
        then show ?thesis
          using False by (simp add: step1_def ls HasSuffix_iff cut K3)
      qed
    next
      case 3
      from step1_amente [OF r1 r2 ls [unfolded 3] False, of rV] obtain res m k where
        "step1 NewPorterStemmer word r1 r2 rV = Some (res, m)" "\<not> m \<longrightarrow> res = word"
        "res = take k word"
        by blast
      then show ?thesis by (auto simp add: T)
    next
      case 4
      then show ?thesis
        using False by (simp add: step1_def ls HasSuffix_iff D T)
    next
      case 5
      then show ?thesis
        using False by (simp add: step1_def ls HasSuffix_iff D T)
    next
      case 6
      then show ?thesis
        using False by (simp add: step1_def ls HasSuffix_iff D T)
    next
      case 7
      from step1_table(2) [OF mem 7] have nt: "126 \<notin> set sfx" and len: "3 \<le> length sfx"
        by simp_all
      have "length (str ''ir'') \<le> length sfx"
        using len by (simp add: str_def)
      with nt have "length (contract_scan (y @ str ''ir'')) \<le> length (contract_scan word)"
        unfolding y by (intro length_contract_scan_replace)
      with 7 show ?thesis
        using False by (simp add: step1_def ls HasSuffix_iff cut)
    next
      case 8
      then show ?thesis
        using False by (simp add: step1_def ls)
    qed
  qed
qed

text \<open>Steps 2 and 4: delete the longest registered suffix of rv from the word.\<close>

lemma delete_in_rv:
  assumes rv: "suffix rV word"
    and ls: "LongestSuffix (AddAll newSuffixTree es) rV = (sfx, g)" and ne: "sfx \<noteq> []"
  shows "suffix sfx word"
    and "LastIndex word sfx = int (length word) - int (length sfx)"
    and "slice_to word (LastIndex word sfx) = Some (take (length word - length sfx) word)"
proof -
  from LongestSuffix_registered(1) [OF ls ne] rv show s: "suffix sfx word"
    by (rule suffix_order.trans)
  then show "LastIndex word sfx = int (length word) - int (length sfx)"
    by (rule LastIndex_suffix)
  from s show "slice_to word (LastIndex word sfx) = Some (take (length word - length sfx) word)"
    by (rule slice_to_suffix)
qed

lemma step2_outcome:
  assumes "suffix rV word"
  shows "step_ok word (step2 NewPorterStemmer word r1 r2 rV)"
proof -
  obtain sfx g where ls: "LongestSuffix (AddAll newSuffixTree step2Suffixes) rV = (sfx, g)"
    by (cases "LongestSuffix (AddAll newSuffixTree step2Suffixes) rV")
  show ?thesis
  proof (cases "sfx = []")
    case True
    then show ?thesis by (simp add: step2_def trees_New ls)
  next
    case False
    from delete_in_rv(3) [OF assms ls False] False show ?thesis
      by (simp add: step2_def trees_New ls length_contract_scan_take)
  qed
qed

lemma step4_outcome:
  assumes "suffix rV word"
  shows "step_ok word (step4 NewPorterStemmer word r1 r2 rV)"
proof -
  obtain sfx g where ls: "LongestSuffix (AddAll newSuffixTree step4Suffixes) rV = (sfx, g)"
    by (cases "LongestSuffix (AddAll newSuffixTree step4Suffixes) rV")
  show ?thesis
  proof (cases "sfx = []")
    case True
    then show ?thesis by (simp add: step4_def trees_New ls)
  next
    case False
    from delete_in_rv(3) [OF assms ls False] False show ?thesis
      by (simp add: step4_def trees_New ls length_contract_scan_take)
  qed
qed

lemma step3_outcome:
  "step_ok word (step3 ps word r1 r2 rV)"
proof (cases "HasSuffix word (str ''ci'') \<and> HasSuffix rV (str ''i'')")
  case False
  then show ?thesis by (auto simp add: step3_def)
next
  case True
  then have "2 \<le> length word" by (simp add: HasSuffix_def str_def)
  then have "slice_to word (int (length word) - 1) = Some (take (length word - 1) word)"
    by (auto simp add: slice_to_def nat_diff_distrib')
  with True show ?thesis
    by (simp add: step3_def length_contract_scan_take)
qed

text \<open>
  Step 5 deletes the suffix found in rv, together with the u of "gu" or the i of "ci"
  in front of it, or removes the cedilla when no suffix is found.
\<close>

lemma step5_found:
  assumes rv: "suffix rV word"
    and ls: "LongestSuffix (AddAll newSuffixTree step5Suffixes) rV = (sfx, g)" and ne: "sfx \<noteq> []"
  shows "\<exists>res d. step5 NewPorterStemmer word r1 r2 rV = Some (res, True) \<and> word = res @ d \<and>
           d = (if suffix (str ''u'' @ sfx) rV \<and> suffix (str ''gu'' @ sfx) word then str ''u'' @ sfx
                else if suffix (str ''i'' @ sfx) rV \<and> suffix (str ''ci'' @ sfx) word
                then str ''i'' @ sfx
                else sfx) \<and>
           slice_to word (LastIndex word d) = Some res \<and>
           LastIndex word d = int (length word) - int (length d)"
proof -
  have sw: "suffix sfx word" using rv ls ne by (rule delete_in_rv(1))
  have cut: "\<exists>res. word = res @ d \<and> slice_to word (LastIndex word d) = Some res \<and>
               LastIndex word d = int (length word) - int (length d)"
    if "suffix d word" for d
  proof -
    from that obtain res where "word = res @ d" by (auto simp add: suffix_def)
    then show ?thesis by (auto simp add: slice_to_def LastIndex_append)
  qed
  have fin: ?thesis
    if eq: "step5 NewPorterStemmer word r1 r2 rV =
              do { res \<leftarrow> slice_to word (LastIndex word d); Some (res, True) }"
      and sd: "suffix d word"
      and d: "d = (if suffix (str ''u'' @ sfx) rV \<and> suffix (str ''gu'' @ sfx) word then str ''u'' @ sfx
                else if suffix (str ''i'' @ sfx) rV \<and> suffix (str ''ci'' @ sfx) word
                then str ''i'' @ sfx
                else sfx)" for d
  proof -
    from cut [OF sd] obtain res where
      c: "word = res @ d" "slice_to word (LastIndex word d) = Some res"
         "LastIndex word d = int (length word) - int (length d)"
      by blast
    from eq c(2) have "step5 NewPorterStemmer word r1 r2 rV = Some (res, True)" by simp
    with c d show ?thesis by blast
  qed
  show ?thesis
  proof (cases "suffix (str ''u'' @ sfx) rV \<and> suffix (str ''gu'' @ sfx) word")
    case True
    then have su: "suffix (str ''u'' @ sfx) word" using rv by (auto intro: suffix_order.trans)
    have "step5 NewPorterStemmer word r1 r2 rV =
        do { res \<leftarrow> slice_to word (LastIndex word (str ''u'' @ sfx)); Some (res, True) }"
      using True ne by (simp add: step5_def trees_New ls HasSuffix_iff)
    moreover have "str ''u'' @ sfx =
        (if suffix (str ''u'' @ sfx) rV \<and> suffix (str ''gu'' @ sfx) word then str ''u'' @ sfx
         else if suffix (str ''i'' @ sfx) rV \<and> suffix (str ''ci'' @ sfx) word
         then str ''i'' @ sfx
         else sfx)"
      using True by simp
    ultimately show ?thesis using su by (intro fin)
  next
    case nu: False
    show ?thesis
    proof (cases "suffix (str ''i'' @ sfx) rV \<and> suffix (str ''ci'' @ sfx) word")
      case True
      then have si: "suffix (str ''i'' @ sfx) word" using rv by (auto intro: suffix_order.trans)
      have "step5 NewPorterStemmer word r1 r2 rV =
          do { res \<leftarrow> slice_to word (LastIndex word (str ''i'' @ sfx)); Some (res, True) }"
        using True nu ne by (auto simp add: step5_def trees_New ls HasSuffix_iff)
      moreover have "str ''i'' @ sfx =
        (if suffix (str ''u'' @ sfx) rV \<and> suffix (str ''gu'' @ sfx) word then str ''u'' @ sfx
         else if suffix (str ''i'' @ sfx) rV \<and> suffix (str ''ci'' @ sfx) word
         then str ''i'' @ sfx
         else sfx)"
        using True nu by auto
      ultimately show ?thesis using si by (intro fin)
    next
      case False
      have "step5 NewPorterStemmer word r1 r2 rV =
          do { res \<leftarrow> slice_to word (LastIndex word sfx); Some (res, True) }"
        using False nu ne by (auto simp add: step5_def trees_New ls HasSuffix_iff)
      moreover have "sfx =
        (if suffix (str ''u'' @ sfx) rV \<and> suffix (str ''gu'' @ sfx) word then str ''u'' @ sfx
         else if suffix (str ''i'' @ sfx) rV \<and> suffix (str ''ci'' @ sfx) word
         then str ''i'' @ sfx
         else sfx)"
        using False nu by auto
      ultimately show ?thesis using sw by (intro fin)
    qed
  qed
qed

lemma step5_outcome:
  assumes "suffix rV word"
  shows "step_ok word (step5 NewPorterStemmer word r1 r2 rV)"
proof -
  obtain sfx g where ls: "LongestSuffix (AddAll newSuffixTree step5Suffixes) rV = (sfx, g)"
    by (cases "LongestSuffix (AddAll newSuffixTree step5Suffixes) rV")
  show ?thesis
  proof (cases "sfx = []")
    case True
    show ?thesis
    proof (cases "suffix (str [c_cedilla]) word")
      case False
      with True show ?thesis by (simp add: step5_def trees_New ls HasSuffix_iff)
    next
      case c: True
      then obtain y where y: "word = y @ str [c_cedilla]" by (auto simp add: suffix_def)
      have "126 \<notin> set (str [c_cedilla])" "length (str ''c'') \<le> length (str [c_cedilla])"
        by (simp_all add: str_def)
      then have "length (contract_scan (y @ str ''c'')) \<le> length (contract_scan word)"
        unfolding y by (rule length_contract_scan_replace)
      moreover have "slice_to word (LastIndex word (str [c_cedilla])) = Some y"
        unfolding y by (rule slice_to_append)
      ultimately show ?thesis
        using True c by (simp add: step5_def trees_New ls HasSuffix_iff)
    qed
  next
    case False
    from step5_found [OF assms ls False, of r1 r2] obtain res d where
      "step5 NewPorterStemmer word r1 r2 rV = Some (res, True)" "word = res @ d"
      by blast
    then show ?thesis
      using length_contract_scan_prefix [of res d] by auto
  qed
qed


section \<open>A run of Stem\<close>

lemma Stem_trace_Stem: "map_option snd (Stem_trace ps w) = Stem ps w"
proof -
  define e where "e = expandNasalisedVowels ps w"
  show ?thesis
  proof (cases "step1 ps e (r ps e) (r ps (r ps e)) (rv ps e)")
    case None
    then show ?thesis by (simp add: Stem_trace_def Stem_def Let_def e_def)
  next
    case (Some a)
    obtain s1 m1 where a: "a = (s1, m1)" by (cases a)
    show ?thesis
    proof (cases m1)
      case True
      show ?thesis
      proof (cases "step3 ps s1 (r ps s1) (r ps (r ps s1)) (rv ps s1)")
        case None
        with Some a True show ?thesis
          by (simp add: Stem_trace_def Stem_def Let_def e_def)
      next
        case s3: (Some b)
        obtain s3 m3 where b: "b = (s3, m3)" by (cases b)
        from Some a True s3 b show ?thesis
          by (cases m3)
            (auto simp add: Stem_trace_def Stem_def Let_def e_def split: Option.bind_split)
      qed
    next
      case False
      show ?thesis
      proof (cases "step2 ps s1 (r ps e) (r ps (r ps e)) (rv ps e)")
        case None
        with Some a False show ?thesis
          by (simp add: Stem_trace_def Stem_def Let_def e_def)
      next
        case s2: (Some b)
        obtain s2 m2 where b: "b = (s2, m2)" by (cases b)
        show ?thesis
        proof (cases m2)
          case True
          show ?thesis
          proof (cases "step3 ps s2 (r ps s2) (r ps (r ps s2)) (rv ps s2)")
            case None
            with Some a False s2 b True show ?thesis
              by (simp add: Stem_trace_def Stem_def Let_def e_def)
          next
            case s3: (Some c)
            obtain s3 m3 where c: "c = (s3, m3)" by (cases c)
            from Some a False s2 b True s3 c show ?thesis
              by (cases m3)
                (auto simp add: Stem_trace_def Stem_def Let_def e_def split: Option.bind_split)
          qed
        next
          case m2: False
          show ?thesis
          proof (cases "step4 ps s2 (r ps e) (r ps (r ps e)) (rv ps e)")
            case None
            with Some a False s2 b m2 show ?thesis
              by (simp add: Stem_trace_def Stem_def Let_def e_def)
          next
            case s4: (Some c)
            obtain s3 m3 where c: "c = (s3, m3)" by (cases c)
            from Some a False s2 b m2 s4 c show ?thesis
              by (cases m3)
                (auto simp add: Stem_trace_def Stem_def Let_def e_def split: Option.bind_split)
          qed
        qed
      qed
    qed
  qed
qed

text \<open>
  The shape of every run of the stemmer built by \<open>NewPorterStemmer\<close>: no step panics,
  every step is called with the regions of the word it is called with, and no step
  makes the contracted word longer.
\<close>

lemma Stem_trace_shape:
  fixes w :: "rune list"
  defines "e \<equiv> expandNasalisedVowels NewPorterStemmer w"
  obtains s2 m1 m2 s3 m3 s5 m5 where
    "Stem_trace NewPorterStemmer w =
       Some (run_log NewPorterStemmer e m1 m2 s2 m3 s3 m5,
             contractNasalisedVowels NewPorterStemmer s5)"
    and "length (contract_scan s5) \<le> length (contract_scan e)"
    and "replay NewPorterStemmer e (run_log NewPorterStemmer e m1 m2 s2 m3 s3 m5) = Some s5"
proof -
  let ?N = NewPorterStemmer
  have "step_ok e (step1 ?N e (r ?N e) (r ?N (r ?N e)) (rv ?N e))"
    by (intro step1_outcome r_suffix)
  from step_okD [OF this] obtain s1 m1 where
    s1: "step1 ?N e (r ?N e) (r ?N (r ?N e)) (rv ?N e) = Some (s1, m1)"
      "\<not> m1 \<longrightarrow> s1 = e" "length (contract_scan s1) \<le> length (contract_scan e)"
    by blast
  have "\<exists>s2 m2. (if m1 then s2 = s1
                  else (\<not> m2 \<longrightarrow> s2 = e) \<and>
                       step2 ?N e (r ?N e) (r ?N (r ?N e)) (rv ?N e) = Some (s2, m2)) \<and>
                 length (contract_scan s2) \<le> length (contract_scan e)"
  proof (cases m1)
    case True
    with s1(3) show ?thesis by auto
  next
    case False
    have "step_ok e (step2 ?N e (r ?N e) (r ?N (r ?N e)) (rv ?N e))"
      by (intro step2_outcome rv_suffix)
    from step_okD [OF this] False show ?thesis by auto
  qed
  then obtain s2 m2 where
    s2: "if m1 then s2 = s1
         else (\<not> m2 \<longrightarrow> s2 = e) \<and>
              step2 ?N e (r ?N e) (r ?N (r ?N e)) (rv ?N e) = Some (s2, m2)"
      "length (contract_scan s2) \<le> length (contract_scan e)"
    by blast
  have "\<exists>s3 m3. (if m1 \<or> m2
                  then step3 ?N s2 (r ?N s2) (r ?N (r ?N s2)) (rv ?N s2) = Some (s3, m3)
                  else step4 ?N s2 (r ?N s2) (r ?N (r ?N s2)) (rv ?N s2) = Some (s3, m3)) \<and>
                 (\<not> m3 \<longrightarrow> s3 = s2) \<and>
                 length (contract_scan s3) \<le> length (contract_scan s2)"
  proof (cases "m1 \<or> m2")
    case True
    from step_okD [OF step3_outcome [of s2 ?N "r ?N s2" "r ?N (r ?N s2)" "rv ?N s2"]] True
    show ?thesis by auto
  next
    case False
    have "step_ok s2 (step4 ?N s2 (r ?N s2) (r ?N (r ?N s2)) (rv ?N s2))"
      by (intro step4_outcome rv_suffix)
    from step_okD [OF this] False show ?thesis by auto
  qed
  then obtain s3 m3 where
    s3: "if m1 \<or> m2
         then step3 ?N s2 (r ?N s2) (r ?N (r ?N s2)) (rv ?N s2) = Some (s3, m3)
         else step4 ?N s2 (r ?N s2) (r ?N (r ?N s2)) (rv ?N s2) = Some (s3, m3)"
      "\<not> m3 \<longrightarrow> s3 = s2"
      "length (contract_scan s3) \<le> length (contract_scan s2)"
    by blast
  have "step_ok s3 (step5 ?N s3 (r ?N s3) (r ?N (r ?N s3)) (rv ?N s3))"
    by (intro step5_outcome rv_suffix)
  from step_okD [OF this] obtain s5 m5 where
    s5: "step5 ?N s3 (r ?N s3) (r ?N (r ?N s3)) (rv ?N s3) = Some (s5, m5)"
      "length (contract_scan s5) \<le> length (contract_scan s3)"
    by blast
  have len: "length (contract_scan s5) \<le> length (contract_scan e)"
    using s5(2) s3(3) s2(2) by simp
  have e2: "s2 = e" if "\<not> m1" "\<not> m2"
    using s2(1) that by simp
  have run: "Stem_trace ?N w =
       Some (run_log ?N e m1 m2 s2 m3 s3 m5, contractNasalisedVowels ?N s5)"
  proof (cases m1)
    case True
    with s2(1) have eq: "s2 = s1" by simp
    from True s3(1) have t3: "step3 ?N s2 (r ?N s2) (r ?N (r ?N s2)) (rv ?N s2) = Some (s3, m3)"
      by simp
    show ?thesis
    proof (cases m3)
      case m3: True
      from True s1(1) eq t3 s5(1) m3 show ?thesis
        unfolding Stem_trace_def e_def [symmetric] by (simp add: Let_def run_log_def call_def)
    next
      case m3: False
      with s3(2) have "s3 = s2" by simp
      with True s1(1) eq t3 s5(1) m3 show ?thesis
        unfolding Stem_trace_def e_def [symmetric] by (simp add: Let_def run_log_def call_def)
    qed
  next
    case m1: False
    with s1(2) have e1: "s1 = e" by simp
    from m1 s2(1) have t2: "step2 ?N e (r ?N e) (r ?N (r ?N e)) (rv ?N e) = Some (s2, m2)"
      by simp
    show ?thesis
    proof (cases m2)
      case True
      from True s3(1) have t3: "step3 ?N s2 (r ?N s2) (r ?N (r ?N s2)) (rv ?N s2) = Some (s3, m3)"
        by simp
      show ?thesis
      proof (cases m3)
        case m3: True
        from m1 s1(1) e1 t2 True t3 s5(1) m3 show ?thesis
          unfolding Stem_trace_def e_def [symmetric] by (simp add: Let_def run_log_def call_def)
      next
        case m3: False
        with s3(2) have "s3 = s2" by simp
        with m1 s1(1) e1 t2 True t3 s5(1) m3 show ?thesis
          unfolding Stem_trace_def e_def [symmetric] by (simp add: Let_def run_log_def call_def)
      qed
    next
      case m2: False
      from e2 [OF m1 m2] have se: "s2 = e" .
      from m1 m2 s3(1) se
      have t4: "step4 ?N e (r ?N e) (r ?N (r ?N e)) (rv ?N e) = Some (s3, m3)"
        by simp
      show ?thesis
      proof (cases m3)
        case m3: True
        from m1 s1(1) e1 t2 m2 se t4 s5(1) m3 show ?thesis
          unfolding Stem_trace_def e_def [symmetric] by (simp add: Let_def run_log_def call_def)
      next
        case m3: False
        with s3(2) se have "s3 = e" by simp
        with m1 s1(1) e1 t2 m2 se t4 s5(1) m3 show ?thesis
          unfolding Stem_trace_def e_def [symmetric] by (simp add: Let_def run_log_def call_def)
      qed
    qed
  qed
  have rep: "replay ?N e (run_log ?N e m1 m2 s2 m3 s3 m5) = Some s5"
  proof (cases m1)
    case True
    with s2(1) have eq: "s2 = s1" by simp
    from True s3(1) have t3: "step3 ?N s2 (r ?N s2) (r ?N (r ?N s2)) (rv ?N s2) = Some (s3, m3)"
      by simp
    from True s1(1) eq t3 s5(1) show ?thesis
      by (cases m3) (simp_all add: run_log_def call_def step_fn_def)
  next
    case m1: False
    with s1(2) have e1: "s1 = e" by simp
    from m1 s2(1) have t2: "step2 ?N e (r ?N e) (r ?N (r ?N e)) (rv ?N e) = Some (s2, m2)"
      by simp
    show ?thesis
    proof (cases m2)
      case True
      from True s3(1) have t3: "step3 ?N s2 (r ?N s2) (r ?N (r ?N s2)) (rv ?N s2) = Some (s3, m3)"
        by simp
      from m1 s1(1) e1 t2 True t3 s5(1) show ?thesis
        by (cases m3) (simp_all add: run_log_def call_def step_fn_def)
    next
      case m2: False
      from m1 m2 s3(1)
      have t4: "step4 ?N s2 (r ?N s2) (r ?N (r ?N s2)) (rv ?N s2) = Some (s3, m3)"
        by simp
      from m1 s1(1) e1 t2 m2 t4 s5(1) show ?thesis
        by (cases m3) (simp_all add: run_log_def call_def step_fn_def)
    qed
  qed
  from that [OF run len rep] show thesis .
qed


section \<open>Runs on concrete words\<close>

text \<open>
  The equations that evaluate the stemmer on a given word. Lookups in the trees of the
  stemmer are evaluated on the lists of registrations, by \<open>LongestSuffix_AddAll_eq\<close>.
\<close>

lemmas eval_defs =
  Stem_def Stem_trace_def Let_def expandNasalisedVowels_def contractNasalisedVowels_def
  r_def r_loop.simps rv_def rv_loop.simps isVowel_New vowelsRunes_def
  step1_def step2_def step3_def step4_def step5_def trees_New LongestSuffix_AddAll_eq
  longest_registered_def step1Suffixes_def step2Suffixes_def step4Suffixes_def step5Suffixes_def
  HasSuffix_def LastIndex_def slice_to_def str_def

lemma Stem_ajuda: "Stem NewPorterStemmer (str ''ajuda'') = Some (str ''ajud'')"
  by (simp add: eval_defs)

lemma Stem_ajudado: "Stem NewPorterStemmer (str ''ajudado'') = Some (str ''ajud'')"
  by (simp add: eval_defs)

lemma Stem_ajudou: "Stem NewPorterStemmer (str ''ajudou'') = Some (str ''ajud'')"
  by (simp add: eval_defs)

lemma Stem_abafaram: "Stem NewPorterStemmer (str ''abafaram'') = Some (str ''abaf'')"
  by (simp add: eval_defs)

lemma Stem_a_acute: "Stem NewPorterStemmer (str [a_acute]) = Some (str [a_acute])"
  by (simp add: eval_defs)

lemma Stem_ooiii:
  "Stem NewPorterStemmer (str ([o_circ, o_circ] @ ''iii'')) = Some (str ([o_circ, o_circ] @ ''iii''))"
  by (simp add: eval_defs)

lemma Stem_ajud: "Stem NewPorterStemmer (str ''ajud'') = Some (str ''ajud'')"
  by (simp add: eval_defs)

lemma Stem_empty: "Stem NewPorterStemmer [] = Some []"
  by (simp add: eval_defs)

lemma Stem_trace_ajuda:
  "Stem_trace NewPorterStemmer (str ''ajuda'') =
     Some ([Regions (str ''ajuda''),
            StepCall 1 (str ''ajuda'') (str ''uda'') (str ''a'') (str ''da'') False,
            StepCall 2 (str ''ajuda'') (str ''uda'') (str ''a'') (str ''da'') False,
            StepCall 4 (str ''ajuda'') (str ''uda'') (str ''a'') (str ''da'') True,
            Regions (str ''ajud''),
            StepCall 5 (str ''ajud'') (str ''ud'') [] (str ''d'') False],
           str ''ajud'')"
  by (simp add: eval_defs)

lemma Stem_trace_ajudou:
  "Stem_trace NewPorterStemmer (str ''ajudou'') =
     Some ([Regions (str ''ajudou''),
            StepCall 1 (str ''ajudou'') (str ''udou'') (str ''ou'') (str ''dou'') False,
            StepCall 2 (str ''ajudou'') (str ''udou'') (str ''ou'') (str ''dou'') True,
            Regions (str ''ajud''),
            StepCall 3 (str ''ajud'') (str ''ud'') [] (str ''d'') False,
            StepCall 5 (str ''ajud'') (str ''ud'') [] (str ''d'') False],
           str ''ajud'')"
  by (simp add: eval_defs)

lemma Stem_trace_sague:
  "Stem_trace NewPorterStemmer (str ''sague'') =
     Some ([Regions (str ''sague''),
            StepCall 1 (str ''sague'') (str ''ue'') [] (str ''ue'') False,
            StepCall 2 (str ''sague'') (str ''ue'') [] (str ''ue'') False,
            StepCall 4 (str ''sague'') (str ''ue'') [] (str ''ue'') False,
            StepCall 5 (str ''sague'') (str ''ue'') [] (str ''ue'') True],
           str ''sag'')"
  by (simp add: eval_defs)

text \<open>Every call in a run has the regions of its word, and rv is a trailing part of it.\<close>

lemma fresh_rv_suffix: "fresh ps (StepCall k wd r1 r2 rV m) \<Longrightarrow> suffix rV wd"
  by (simp add: rv_suffix)

lemma list_all_fresh_run_log: "list_all (fresh ps) (run_log ps e m1 m2 s2 m3 s3 m5)"
  by (simp add: run_log_def call_def)

text \<open>
  A log that replays contains only calls for which the step returns a word and the
  logged flag.
\<close>

lemma replay_call:
  "replay ps cur tr = Some out \<Longrightarrow> StepCall k wd r1 r2 rV m \<in> set tr \<Longrightarrow>
   \<exists>res. step_fn k ps wd r1 r2 rV = Some (res, m)"
  by (induction ps cur tr rule: replay.induct) (auto split: if_splits option.splits)

lemma nth_from_list_all:
  assumes "list_all P (drop k xs)"
  shows "\<forall>j. k \<le> j \<and> j < length xs \<longrightarrow> P (xs ! j)"
proof (intro allI impI)
  fix j
  assume j: "k \<le> j \<and> j < length xs"
  then have "drop k xs ! (j - k) = xs ! j" and "j - k < length (drop k xs)"
    by auto
  then have "xs ! j \<in> set (drop k xs)" by (metis nth_mem)
  with assms show "P (xs ! j)" by (simp add: list_all_iff)
qed

text \<open>
  A log of "ajudou" in the order 1-2-4-5, with step 2 reporting no modification, does
  not replay: step 2 deletes "ou" from "ajudou" and reports it.
\<close>

lemma replay_ajudou_1245:
  "replay NewPorterStemmer (str ''ajudou'')
     [Regions (str ''ajudou''),
      StepCall 1 (str ''ajudou'') (str ''udou'') (str ''ou'') (str ''dou'') False,
      StepCall 2 (str ''ajudou'') (str ''udou'') (str ''ou'') (str ''dou'') False,
      StepCall 4 (str ''ajudou'') (str ''udou'') (str ''ou'') (str ''dou'') False,
      StepCall 5 (str ''ajudou'') (str ''udou'') (str ''ou'') (str ''dou'') False] = None"
  by (simp add: step_fn_def eval_defs)


section \<open>The claims\<close>

text \<open>
  C1. The word "abcd" has four runes, its second rune is a consonant and no rune from
  index 2 on is a vowel. The first loop of \<open>rv\<close> ends without returning, the function
  falls through to its last line and returns the runes from index 3 on, "d", where the
  description of RV gives the empty string.
\<close>

theorem C1_rv_no_vowel_falls_through:
  "length (str ''abcd'') \<ge> 3 \<and>
   \<not> isVowel NewPorterStemmer (str ''abcd'' ! 1) \<and>
   list_all (\<lambda>c. \<not> isVowel NewPorterStemmer c) (drop 2 (str ''abcd'')) \<and>
   rv NewPorterStemmer (str ''abcd'') = str ''d''"
  by (simp add: rv_def rv_loop.simps isVowel_New vowelsRunes_def str_def)

text \<open>
  C2. For a suffix tree built by registrations of non-empty suffixes (the contract of
  insertion) and every query word: when no registered suffix is a trailing substring of
  the word, \<open>LongestSuffix\<close> returns the empty string and the group \<open>-1\<close>; otherwise it
  returns a registered suffix that is a trailing substring of the word and at least as
  long as every other such suffix, with the group it was registered with (the last
  registration of that suffix). After registering "ismos", "a", "ma", "dog" and "ia"
  with group 1, the longest suffix of "algorismos" is ("ismos", 1) and that of
  "algoritmos" is the sentinel.
\<close>

theorem C2_LongestSuffix_longest_registered:
  assumes "[] \<notin> fst ` set es"
  shows "((\<forall>s \<in> fst ` set es. \<not> suffix s w) \<longrightarrow>
            LongestSuffix (AddAll newSuffixTree es) w = ([], - 1)) \<and>
         ((\<exists>s \<in> fst ` set es. suffix s w) \<longrightarrow>
            (\<exists>s g. LongestSuffix (AddAll newSuffixTree es) w = (s, g) \<and>
                   (s, g) \<in> set es \<and> map_of (rev es) s = Some g \<and> suffix s w \<and>
                   (\<forall>s' \<in> fst ` set es. suffix s' w \<longrightarrow> length s' \<le> length s))) \<and>
         LongestSuffix (AddAll newSuffixTree addedWords) (str ''algorismos'') = (str ''ismos'', 1) \<and>
         LongestSuffix (AddAll newSuffixTree addedWords) (str ''algoritmos'') = ([], - 1)"
proof (intro conjI impI)
  assume "\<forall>s \<in> fst ` set es. \<not> suffix s w"
  then show "LongestSuffix (AddAll newSuffixTree es) w = ([], - 1)"
    by (intro LongestSuffix_AddAll_none) simp
next
  assume ex: "\<exists>s \<in> fst ` set es. suffix s w"
  obtain s g where c: "longest_registered es w = (s, g)"
    by (cases "longest_registered es w")
  from longest_registered_char [of es w] c have
    "(s = [] \<and> g = - 1 \<and> (\<forall>s' \<in> fst ` set es. s' \<noteq> [] \<longrightarrow> \<not> suffix s' w)) \<or>
     (s \<noteq> [] \<and> suffix s w \<and> s \<in> fst ` set es \<and> map_of (rev es) s = Some g \<and>
      (\<forall>s' \<in> fst ` set es. suffix s' w \<longrightarrow> length s' \<le> length s))"
    by simp
  moreover have "\<not> (\<forall>s' \<in> fst ` set es. s' \<noteq> [] \<longrightarrow> \<not> suffix s' w)"
    using ex assms by metis
  ultimately have good: "suffix s w" "map_of (rev es) s = Some g"
    "\<forall>s' \<in> fst ` set es. suffix s' w \<longrightarrow> length s' \<le> length s"
    by blast+
  from good(2) have "(s, g) \<in> set (rev es)" by (rule map_of_SomeD)
  then have "(s, g) \<in> set es" by simp
  with good c show "\<exists>s g. LongestSuffix (AddAll newSuffixTree es) w = (s, g) \<and>
      (s, g) \<in> set es \<and> map_of (rev es) s = Some g \<and> suffix s w \<and>
      (\<forall>s' \<in> fst ` set es. suffix s' w \<longrightarrow> length s' \<le> length s)"
    by (simp add: LongestSuffix_AddAll_eq)
next
  show "LongestSuffix (AddAll newSuffixTree addedWords) (str ''algorismos'') = (str ''ismos'', 1)"
    by (simp add: LongestSuffix_def AddAll_def addedWords_def Add_def newSuffixTree_def
        newNode_def str_def)
next
  show "LongestSuffix (AddAll newSuffixTree addedWords) (str ''algoritmos'') = ([], - 1)"
    by (simp add: LongestSuffix_def AddAll_def addedWords_def Add_def newSuffixTree_def
        newNode_def str_def)
qed

theorem C2_witness:
  "LongestSuffix (AddAll newSuffixTree addedWords) (str ''laia'') = (str ''ia'', 1) \<and>
   LongestSuffix (AddAll newSuffixTree addedWords) (str ''cat'') = ([], - 1)"
proof -
  have ne: "[] \<notin> fst ` set addedWords"
    by (simp add: addedWords_def str_def)
  have ia: "str ''ia'' \<in> fst ` set addedWords" "suffix (str ''ia'') (str ''laia'')"
    by (simp_all add: addedWords_def str_def suffix_to_prefix)
  then have "\<exists>s \<in> fst ` set addedWords. suffix s (str ''laia'')" by blast
  with C2_LongestSuffix_longest_registered [OF ne, of "str ''laia''"] obtain s g where
    sg: "LongestSuffix (AddAll newSuffixTree addedWords) (str ''laia'') = (s, g)"
        "(s, g) \<in> set addedWords" "suffix s (str ''laia'')"
        "\<forall>s' \<in> fst ` set addedWords. suffix s' (str ''laia'') \<longrightarrow> length s' \<le> length s"
    by blast
  from sg(4) ia have "length (str ''ia'') \<le> length s" by blast
  with sg(2) have "s = str ''ia'' \<or> s = str ''ismos'' \<or> s = str ''dog'' \<or> s = str ''ma''"
    and g: "g = 1"
    by (auto simp add: addedWords_def str_def)
  with sg(3) have "s = str ''ia''"
    by (auto simp add: str_def suffix_to_prefix)
  moreover have "\<forall>s \<in> fst ` set addedWords. \<not> suffix s (str ''cat'')"
    by (simp add: addedWords_def str_def suffix_to_prefix)
  with C2_LongestSuffix_longest_registered [OF ne, of "str ''cat''"]
  have "LongestSuffix (AddAll newSuffixTree addedWords) (str ''cat'') = ([], - 1)"
    by blast
  ultimately show ?thesis using sg(1) g by simp
qed

text \<open>
  C3. Every run of \<open>Stem\<close> has a log that replays on the steps themselves: starting from
  the expanded word, every logged call is a call of that step on the current word, the
  flag logged is the flag the step returns for the logged arguments, the word it returns
  is the current word of the next event, and the stem is the contraction of the last
  current word. In this log the steps are called in one of the orders 1-3-5, 1-2-3-5 or
  1-2-4-5: step 2 is attempted exactly when step 1 reported no modification, step 3
  exactly when step 1 or step 2 reported one, step 4 exactly when neither did, and
  steps 1 and 5 always. Every step is called with r1, r2 and rv equal to \<open>r w\<close>,
  \<open>r (r w)\<close> and \<open>rv w\<close> for the word \<open>w\<close> it is called with, which is the current word.
  After the first computation the regions are computed again once for each of the two
  phases (steps 1 and 2, steps 3 and 4) that reported a modification, so at most twice.
\<close>

theorem C3_orchestration:
  "\<exists>tr res out. Stem_trace NewPorterStemmer w = Some (tr, res) \<and>
     Stem NewPorterStemmer w = Some res \<and>
     replay NewPorterStemmer (expandNasalisedVowels NewPorterStemmer w) tr = Some out \<and>
     res = contractNasalisedVowels NewPorterStemmer out \<and>
     (steps_of tr = [1, 3, 5] \<or> steps_of tr = [1, 2, 3, 5] \<or> steps_of tr = [1, 2, 4, 5]) \<and>
     attempted 1 tr \<and>
     attempted 2 tr = (\<not> modified_by 1 tr) \<and>
     attempted 3 tr = (modified_by 1 tr \<or> modified_by 2 tr) \<and>
     attempted 4 tr = (\<not> (modified_by 1 tr \<or> modified_by 2 tr)) \<and>
     attempted 5 tr \<and>
     list_all (fresh NewPorterStemmer) tr \<and>
     hd tr = Regions (expandNasalisedVowels NewPorterStemmer w) \<and>
     length (filter is_Regions (tl tr)) =
       (if modified_by 1 tr \<or> modified_by 2 tr then 1 else 0) +
       (if modified_by 3 tr \<or> modified_by 4 tr then 1 else 0) \<and>
     length (filter is_Regions (tl tr)) \<le> 2"
proof -
  obtain s2 m1 m2 s3 m3 s5 m5 where
    run: "Stem_trace NewPorterStemmer w =
       Some (run_log NewPorterStemmer (expandNasalisedVowels NewPorterStemmer w) m1 m2 s2 m3 s3 m5,
             contractNasalisedVowels NewPorterStemmer s5)"
    and len: "length (contract_scan s5) \<le>
       length (contract_scan (expandNasalisedVowels NewPorterStemmer w))"
    and rep: "replay NewPorterStemmer (expandNasalisedVowels NewPorterStemmer w)
       (run_log NewPorterStemmer (expandNasalisedVowels NewPorterStemmer w) m1 m2 s2 m3 s3 m5) =
       Some s5"
    by (rule Stem_trace_shape)
  let ?tr = "run_log NewPorterStemmer (expandNasalisedVowels NewPorterStemmer w) m1 m2 s2 m3 s3 m5"
  have st: "Stem NewPorterStemmer w = Some (contractNasalisedVowels NewPorterStemmer s5)"
    using Stem_trace_Stem [of NewPorterStemmer w] run by simp
  have fr: "list_all (fresh NewPorterStemmer) ?tr"
    by (rule list_all_fresh_run_log)
  have rest: "(steps_of ?tr = [1, 3, 5] \<or> steps_of ?tr = [1, 2, 3, 5] \<or> steps_of ?tr = [1, 2, 4, 5]) \<and>
     attempted 1 ?tr \<and>
     attempted 2 ?tr = (\<not> modified_by 1 ?tr) \<and>
     attempted 3 ?tr = (modified_by 1 ?tr \<or> modified_by 2 ?tr) \<and>
     attempted 4 ?tr = (\<not> (modified_by 1 ?tr \<or> modified_by 2 ?tr)) \<and>
     attempted 5 ?tr \<and>
     hd ?tr = Regions (expandNasalisedVowels NewPorterStemmer w) \<and>
     length (filter is_Regions (tl ?tr)) =
       (if modified_by 1 ?tr \<or> modified_by 2 ?tr then 1 else 0) +
       (if modified_by 3 ?tr \<or> modified_by 4 ?tr then 1 else 0) \<and>
     length (filter is_Regions (tl ?tr)) \<le> 2"
    by (cases m1; cases m2; cases m3)
      (simp_all add: run_log_def call_def steps_of_def attempted_def modified_by_def
        List.map_filter_simps)
  from run st rep fr rest show ?thesis by blast
qed

theorem C3_witness:
  "(\<exists>tr res out. Stem_trace NewPorterStemmer (str ''ajuda'') = Some (tr, res) \<and>
     res = str ''ajud'' \<and> steps_of tr = [1, 2, 4, 5] \<and> list_all (fresh NewPorterStemmer) tr \<and>
     length (filter is_Regions (tl tr)) = 1 \<and>
     replay NewPorterStemmer (expandNasalisedVowels NewPorterStemmer (str ''ajuda'')) tr =
       Some out \<and>
     res = contractNasalisedVowels NewPorterStemmer out) \<and>
   (\<exists>tr res. Stem_trace NewPorterStemmer (str ''ajudou'') = Some (tr, res) \<and>
     res = str ''ajud'' \<and> steps_of tr = [1, 2, 3, 5] \<and>
     length (filter is_Regions (tl tr)) = 1)"
proof -
  from C3_orchestration [of "str ''ajuda''"] obtain tr res out where
    t: "Stem_trace NewPorterStemmer (str ''ajuda'') = Some (tr, res)"
    and rp: "replay NewPorterStemmer (expandNasalisedVowels NewPorterStemmer (str ''ajuda'')) tr =
       Some out"
    and rs: "res = contractNasalisedVowels NewPorterStemmer out"
    and s: "steps_of tr = [1, 3, 5] \<or> steps_of tr = [1, 2, 3, 5] \<or> steps_of tr = [1, 2, 4, 5]"
    and a: "attempted 4 tr = (\<not> (modified_by 1 tr \<or> modified_by 2 tr))"
    and f: "list_all (fresh NewPorterStemmer) tr"
    and n: "length (filter is_Regions (tl tr)) =
       (if modified_by 1 tr \<or> modified_by 2 tr then 1 else 0) +
       (if modified_by 3 tr \<or> modified_by 4 tr then 1 else 0)"
    by (elim exE conjE) (rule that)
  from t [unfolded Stem_trace_ajuda] have tr: "tr = [Regions (str ''ajuda''),
            StepCall 1 (str ''ajuda'') (str ''uda'') (str ''a'') (str ''da'') False,
            StepCall 2 (str ''ajuda'') (str ''uda'') (str ''a'') (str ''da'') False,
            StepCall 4 (str ''ajuda'') (str ''uda'') (str ''a'') (str ''da'') True,
            Regions (str ''ajud''),
            StepCall 5 (str ''ajud'') (str ''ud'') [] (str ''d'') False]"
    and res: "res = str ''ajud''"
    by auto
  have m: "\<not> modified_by 1 tr" "\<not> modified_by 2 tr" "modified_by 4 tr"
    by (simp_all add: tr modified_by_def)
  with a have "attempted 4 tr" by simp
  with s have "steps_of tr = [1, 2, 4, 5]" by (auto simp add: attempted_def)
  moreover from n m have "length (filter is_Regions (tl tr)) = 1" by simp
  ultimately have 1: "\<exists>tr res out. Stem_trace NewPorterStemmer (str ''ajuda'') = Some (tr, res) \<and>
     res = str ''ajud'' \<and> steps_of tr = [1, 2, 4, 5] \<and> list_all (fresh NewPorterStemmer) tr \<and>
     length (filter is_Regions (tl tr)) = 1 \<and>
     replay NewPorterStemmer (expandNasalisedVowels NewPorterStemmer (str ''ajuda'')) tr =
       Some out \<and>
     res = contractNasalisedVowels NewPorterStemmer out"
    using t res f rp rs by blast
  from C3_orchestration [of "str ''ajudou''"] obtain tr' res' out' where
    t': "Stem_trace NewPorterStemmer (str ''ajudou'') = Some (tr', res')"
    and s': "steps_of tr' = [1, 3, 5] \<or> steps_of tr' = [1, 2, 3, 5] \<or>
       steps_of tr' = [1, 2, 4, 5]"
    and a2: "attempted 2 tr' = (\<not> modified_by 1 tr')"
    and a3: "attempted 3 tr' = (modified_by 1 tr' \<or> modified_by 2 tr')"
    and n': "length (filter is_Regions (tl tr')) =
       (if modified_by 1 tr' \<or> modified_by 2 tr' then 1 else 0) +
       (if modified_by 3 tr' \<or> modified_by 4 tr' then 1 else 0)"
    by (elim exE conjE) (rule that)
  from t' [unfolded Stem_trace_ajudou] have tr': "tr' = [Regions (str ''ajudou''),
            StepCall 1 (str ''ajudou'') (str ''udou'') (str ''ou'') (str ''dou'') False,
            StepCall 2 (str ''ajudou'') (str ''udou'') (str ''ou'') (str ''dou'') True,
            Regions (str ''ajud''),
            StepCall 3 (str ''ajud'') (str ''ud'') [] (str ''d'') False,
            StepCall 5 (str ''ajud'') (str ''ud'') [] (str ''d'') False]"
    and res': "res' = str ''ajud''"
    by auto
  have m': "\<not> modified_by 1 tr'" "modified_by 2 tr'" "\<not> modified_by 3 tr'"
    "\<not> modified_by 4 tr'"
    by (simp_all add: tr' modified_by_def)
  with a2 a3 have "attempted 2 tr'" "attempted 3 tr'" by simp_all
  with s' have "steps_of tr' = [1, 2, 3, 5]" by (auto simp add: attempted_def)
  moreover from n' m' have "length (filter is_Regions (tl tr')) = 1" by simp
  ultimately have 2: "\<exists>tr res. Stem_trace NewPorterStemmer (str ''ajudou'') = Some (tr, res) \<and>
     res = str ''ajud'' \<and> steps_of tr = [1, 2, 3, 5] \<and>
     length (filter is_Regions (tl tr)) = 1"
    using t' res' by blast
  from 1 2 show ?thesis by (rule conjI)
qed

text \<open>
  C4. The literal cases of the stemmer's test: "ajuda", "ajudado" and "ajudou" stem to
  "ajud", "abafaram" to "abaf", and the word of the single letter a-acute and the word
  of two o-circumflex followed by "iii" are returned unchanged.
\<close>

theorem C4_end_to_end:
  "Stem NewPorterStemmer (str ''ajuda'') = Some (str ''ajud'') \<and>
   Stem NewPorterStemmer (str ''ajudado'') = Some (str ''ajud'') \<and>
   Stem NewPorterStemmer (str ''ajudou'') = Some (str ''ajud'') \<and>
   Stem NewPorterStemmer (str ''abafaram'') = Some (str ''abaf'') \<and>
   Stem NewPorterStemmer (str [a_acute]) = Some (str [a_acute]) \<and>
   Stem NewPorterStemmer (str ([o_circ, o_circ] @ ''iii'')) = Some (str ([o_circ, o_circ] @ ''iii''))"
  by (simp only: Stem_ajuda Stem_ajudado Stem_ajudou Stem_abafaram Stem_a_acute Stem_ooiii simp_thms)

text \<open>
  C5. \<open>r word\<close> is the rest of the word two positions after the first position \<open>i\<close> that
  holds a vowel followed by a non-vowel, and the empty string when the word has no such
  position; so \<open>r\<close> of the empty word is empty, and \<open>r word\<close> is always a trailing part
  of the word.
\<close>

theorem C5_r_first_transition:
  "(\<forall>i. i + 1 < length w \<and> isVowel ps (w ! i) \<and> \<not> isVowel ps (w ! (i + 1)) \<and>
        (\<forall>j<i. \<not> (isVowel ps (w ! j) \<and> \<not> isVowel ps (w ! (j + 1)))) \<longrightarrow>
        r ps w = drop (i + 2) w) \<and>
   ((\<forall>i. i + 1 < length w \<longrightarrow> \<not> (isVowel ps (w ! i) \<and> \<not> isVowel ps (w ! (i + 1)))) \<longrightarrow>
        r ps w = []) \<and>
   r ps [] = [] \<and> suffix (r ps w) w"
proof (intro conjI allI impI)
  fix i
  assume "i + 1 < length w \<and> isVowel ps (w ! i) \<and> \<not> isVowel ps (w ! (i + 1)) \<and>
          (\<forall>j<i. \<not> (isVowel ps (w ! j) \<and> \<not> isVowel ps (w ! (j + 1))))"
  then show "r ps w = drop (i + 2) w"
    unfolding r_def by (intro r_loop_first) simp_all
next
  assume "\<forall>i. i + 1 < length w \<longrightarrow> \<not> (isVowel ps (w ! i) \<and> \<not> isVowel ps (w ! (i + 1)))"
  then show "r ps w = []"
    unfolding r_def by (intro r_loop_none) simp
next
  show "r ps [] = []"
    by (simp add: r_def r_loop.simps [of ps "[]" 0])
next
  show "suffix (r ps w) w" by (rule r_suffix)
qed

theorem C5_witness:
  "r NewPorterStemmer (str ''beauty'') = str ''y'' \<and> r NewPorterStemmer (str ''beau'') = []"
proof -
  have v: "\<And>c. isVowel NewPorterStemmer c \<longleftrightarrow> c \<in> set vowelsRunes"
    by (rule isVowel_New)
  have "3 + 1 < length (str ''beauty'') \<and> isVowel NewPorterStemmer (str ''beauty'' ! 3) \<and>
        \<not> isVowel NewPorterStemmer (str ''beauty'' ! (3 + 1)) \<and>
        (\<forall>j<3. \<not> (isVowel NewPorterStemmer (str ''beauty'' ! j) \<and>
                  \<not> isVowel NewPorterStemmer (str ''beauty'' ! (j + 1))))"
    by (auto simp add: v vowelsRunes_def str_def less_Suc_eq numeral_3_eq_3)
  with C5_r_first_transition [of "str ''beauty''" NewPorterStemmer]
  have "r NewPorterStemmer (str ''beauty'') = drop (3 + 2) (str ''beauty'')"
    by blast
  then have a: "r NewPorterStemmer (str ''beauty'') = str ''y''"
    by (simp add: str_def)
  have "\<forall>i. i + 1 < length (str ''beau'') \<longrightarrow>
          \<not> (isVowel NewPorterStemmer (str ''beau'' ! i) \<and>
             \<not> isVowel NewPorterStemmer (str ''beau'' ! (i + 1)))"
    by (auto simp add: v vowelsRunes_def str_def less_Suc_eq numeral_3_eq_3)
  with C5_r_first_transition [of "str ''beau''" NewPorterStemmer]
  have "r NewPorterStemmer (str ''beau'') = []"
    by blast
  with a show ?thesis by simp
qed

text \<open>
  C6. On every word without the marker \<open>~\<close> (rune 126), contraction undoes expansion.
\<close>

theorem C6_contract_expand_roundtrip:
  "126 \<notin> set w \<Longrightarrow> contractNasalisedVowels ps (expandNasalisedVowels ps w) = w"
  by (simp add: contractNasalisedVowels_eq expandNasalisedVowels_eq contract_expand)

theorem C6_witness:
  "126 \<notin> set (str (''n'' @ [a_tilde] @ ''o'')) \<and>
   expandNasalisedVowels NewPorterStemmer (str (''n'' @ [a_tilde] @ ''o'')) = str ''na~o'' \<and>
   contractNasalisedVowels NewPorterStemmer (str ''na~o'') = str (''n'' @ [a_tilde] @ ''o'')"
proof -
  have h: "126 \<notin> set (str (''n'' @ [a_tilde] @ ''o''))"
    by (simp add: str_def)
  have e: "expandNasalisedVowels NewPorterStemmer (str (''n'' @ [a_tilde] @ ''o'')) = str ''na~o''"
    by (simp add: expandNasalisedVowels_def str_def)
  from C6_contract_expand_roundtrip [OF h, of NewPorterStemmer] e h show ?thesis
    by simp
qed

text \<open>
  C7. \<open>Stem\<close> is a function of the word, it returns a stem for every list of runes (no
  step panics), and the stem of the empty word is the empty word. Of the operations it
  uses, \<open>r\<close> returns the empty string when the word has no vowel followed by a
  non-vowel, and \<open>LongestSuffix\<close> returns the empty string with the group \<open>-1\<close> when no
  registered suffix ends the word. \<open>rv\<close> returns the empty string for a word of fewer
  than three runes, and for a word that begins with two vowels and has no non-vowel
  after them. In its third absent case it does not: when the second rune is not a
  vowel and no vowel follows from index 2 on, \<open>rv\<close> returns the runes from index 3 on,
  which is "d" and not the empty string for the word "abcd".
\<close>

theorem C7_Stem_total_rv_no_sentinel:
  "(\<exists>s. Stem NewPorterStemmer w = Some s) \<and>
   Stem NewPorterStemmer [] = Some [] \<and>
   ((\<forall>i. i + 1 < length u \<longrightarrow> \<not> (isVowel ps (u ! i) \<and> \<not> isVowel ps (u ! (i + 1)))) \<longrightarrow>
      r ps u = []) \<and>
   ((\<forall>s \<in> fst ` set es. s \<noteq> [] \<longrightarrow> \<not> suffix s u) \<longrightarrow>
      LongestSuffix (AddAll newSuffixTree es) u = ([], - 1)) \<and>
   (length u < 3 \<longrightarrow> rv ps u = []) \<and>
   (3 \<le> length u \<and> isVowel ps (u ! 0) \<and> isVowel ps (u ! 1) \<and>
      (\<forall>j. 2 \<le> j \<and> j < length u \<longrightarrow> isVowel ps (u ! j)) \<longrightarrow>
      rv ps u = []) \<and>
   (3 \<le> length u \<and> \<not> isVowel ps (u ! 1) \<and>
      (\<forall>j. 2 \<le> j \<and> j < length u \<longrightarrow> \<not> isVowel ps (u ! j)) \<longrightarrow>
      rv ps u = drop 3 u) \<and>
   rv NewPorterStemmer (str ''abcd'') = str ''d'' \<and>
   rv NewPorterStemmer (str ''abcd'') \<noteq> []"
proof (intro conjI impI)
  obtain s2 m1 m2 s3 m3 s5 m5 where
    "Stem_trace NewPorterStemmer w =
       Some (run_log NewPorterStemmer (expandNasalisedVowels NewPorterStemmer w) m1 m2 s2 m3 s3 m5,
             contractNasalisedVowels NewPorterStemmer s5)"
    by (rule Stem_trace_shape)
  with Stem_trace_Stem [of NewPorterStemmer w]
  have "Stem NewPorterStemmer w = Some (contractNasalisedVowels NewPorterStemmer s5)" by simp
  then show "\<exists>s. Stem NewPorterStemmer w = Some s" by blast
next
  show "Stem NewPorterStemmer [] = Some []" by (rule Stem_empty)
next
  assume "\<forall>i. i + 1 < length u \<longrightarrow> \<not> (isVowel ps (u ! i) \<and> \<not> isVowel ps (u ! (i + 1)))"
  then show "r ps u = []"
    unfolding r_def by (intro r_loop_none) simp
next
  assume "\<forall>s \<in> fst ` set es. s \<noteq> [] \<longrightarrow> \<not> suffix s u"
  then show "LongestSuffix (AddAll newSuffixTree es) u = ([], - 1)"
    by (rule LongestSuffix_AddAll_none)
next
  assume "length u < 3"
  then show "rv ps u = []" by (simp add: rv_def)
next
  assume a: "3 \<le> length u \<and> isVowel ps (u ! 0) \<and> isVowel ps (u ! 1) \<and>
      (\<forall>j. 2 \<le> j \<and> j < length u \<longrightarrow> isVowel ps (u ! j))"
  then have "rv_loop ps False u 2 = None"
    unfolding rv_loop_None by simp
  with a show "rv ps u = []" by (simp add: rv_def)
next
  assume "3 \<le> length u \<and> \<not> isVowel ps (u ! 1) \<and>
      (\<forall>j. 2 \<le> j \<and> j < length u \<longrightarrow> \<not> isVowel ps (u ! j))"
  then show "rv ps u = drop 3 u" by (intro rv_falls_through) simp_all
next
  show "rv NewPorterStemmer (str ''abcd'') = str ''d''"
    by (simp add: rv_def rv_loop.simps isVowel_New vowelsRunes_def str_def)
next
  show "rv NewPorterStemmer (str ''abcd'') \<noteq> []"
    by (simp add: rv_def rv_loop.simps isVowel_New vowelsRunes_def str_def)
qed

theorem C7_witness:
  "(\<exists>s. Stem NewPorterStemmer (str ''123!'') = Some s) \<and>
   r NewPorterStemmer (str ''kl'') = [] \<and>
   rv NewPorterStemmer (str ''kl'') = [] \<and>
   LongestSuffix (AddAll newSuffixTree step5Suffixes) (str ''kl'') = ([], - 1) \<and>
   rv NewPorterStemmer (str ''aei'') = [] \<and>
   rv NewPorterStemmer (str ''bcdfg'') = str ''fg''"
proof -
  have a: "\<forall>i. i + 1 < length (str ''kl'') \<longrightarrow>
      \<not> (isVowel NewPorterStemmer (str ''kl'' ! i) \<and> \<not> isVowel NewPorterStemmer (str ''kl'' ! (i + 1)))"
    by (simp add: str_def isVowel_New vowelsRunes_def)
  have b: "length (str ''kl'') < 3" by (simp add: str_def)
  have c: "\<forall>s \<in> fst ` set step5Suffixes. s \<noteq> [] \<longrightarrow> \<not> suffix s (str ''kl'')"
    by (simp add: step5Suffixes_def str_def suffix_to_prefix)
  have d: "3 \<le> length (str ''aei'') \<and> isVowel NewPorterStemmer (str ''aei'' ! 0) \<and>
      isVowel NewPorterStemmer (str ''aei'' ! 1) \<and>
      (\<forall>j. 2 \<le> j \<and> j < length (str ''aei'') \<longrightarrow> isVowel NewPorterStemmer (str ''aei'' ! j))"
    by (intro conjI nth_from_list_all) (simp_all add: str_def isVowel_New vowelsRunes_def)
  have e: "3 \<le> length (str ''bcdfg'') \<and> \<not> isVowel NewPorterStemmer (str ''bcdfg'' ! 1) \<and>
      (\<forall>j. 2 \<le> j \<and> j < length (str ''bcdfg'') \<longrightarrow>
         \<not> isVowel NewPorterStemmer (str ''bcdfg'' ! j))"
    by (intro conjI nth_from_list_all) (simp_all add: str_def isVowel_New vowelsRunes_def)
  from C7_Stem_total_rv_no_sentinel
    [of "str ''123!''" "str ''kl''" NewPorterStemmer step5Suffixes] a b c
  have 1: "(\<exists>s. Stem NewPorterStemmer (str ''123!'') = Some s) \<and>
     r NewPorterStemmer (str ''kl'') = [] \<and>
     rv NewPorterStemmer (str ''kl'') = [] \<and>
     LongestSuffix (AddAll newSuffixTree step5Suffixes) (str ''kl'') = ([], - 1)"
    by blast
  from C7_Stem_total_rv_no_sentinel [of "[]" "str ''aei''" NewPorterStemmer "[]"] d
  have 2: "rv NewPorterStemmer (str ''aei'') = []"
    by blast
  from C7_Stem_total_rv_no_sentinel [of "[]" "str ''bcdfg''" NewPorterStemmer "[]"] e
  have "rv NewPorterStemmer (str ''bcdfg'') = drop 3 (str ''bcdfg'')"
    by blast
  then have 3: "rv NewPorterStemmer (str ''bcdfg'') = str ''fg''"
    by (simp add: str_def)
  from 1 2 3 show ?thesis by simp
qed

text \<open>
  C8. The stem "ajud" is a fixed point of \<open>Stem\<close>, and stemming the stem of "ajuda",
  "ajudado" or "ajudou" once more gives the same stem.
\<close>

theorem C8_ajud_fixed_point:
  "Stem NewPorterStemmer (str ''ajud'') = Some (str ''ajud'') \<and>
   Stem NewPorterStemmer (str ''ajuda'') \<bind> Stem NewPorterStemmer =
     Stem NewPorterStemmer (str ''ajuda'') \<and>
   Stem NewPorterStemmer (str ''ajudado'') \<bind> Stem NewPorterStemmer =
     Stem NewPorterStemmer (str ''ajudado'') \<and>
   Stem NewPorterStemmer (str ''ajudou'') \<bind> Stem NewPorterStemmer =
     Stem NewPorterStemmer (str ''ajudou'') \<and>
   Stem NewPorterStemmer (str ''ajuda'') \<noteq> None \<and>
   Stem NewPorterStemmer (str ''ajudado'') \<noteq> None \<and>
   Stem NewPorterStemmer (str ''ajudou'') \<noteq> None"
  by (simp add: Stem_ajuda Stem_ajudado Stem_ajudou Stem_ajud)

text \<open>
  C9, as the code has it. Every run of \<open>Stem\<close> has a log that replays on the steps
  themselves, from the expanded word to the word whose contraction is the stem, and
  that ends with a call of step 5. For every call in it, the rv that the step receives
  is a trailing part of the word it receives, and the step returns a word and the
  logged flag: no slice is out of bounds. Whenever step 2 or step 4 gets a non-empty
  suffix from its tree, the suffix is a trailing part of the word, \<open>LastIndex\<close> returns
  the length of the word minus the length of the suffix, which is not negative, and
  the step returns the word without exactly this trailing occurrence. Whenever step 5
  gets a non-empty suffix, the suffix is a trailing part of the word, and the string
  \<open>d\<close> that the step deletes from the end of the word is: "u" and the suffix, when rv
  ends in "u" and the suffix and the word ends in "gu" and the suffix; otherwise "i"
  and the suffix, when rv ends in "i" and the suffix and the word ends in "ci" and the
  suffix; otherwise exactly the suffix. \<open>LastIndex\<close> is called with \<open>d\<close> and returns the
  length of the word minus the length of \<open>d\<close>, which is not negative, and the step
  returns the word without exactly this trailing occurrence of \<open>d\<close>.
\<close>

theorem C9_rv_suffix_deleted:
  "\<exists>tr res out. Stem_trace NewPorterStemmer w = Some (tr, res) \<and>
     Stem NewPorterStemmer w = Some res \<and>
     replay NewPorterStemmer (expandNasalisedVowels NewPorterStemmer w) tr = Some out \<and>
     res = contractNasalisedVowels NewPorterStemmer out \<and>
     attempted 5 tr \<and>
     (\<forall>k wd r1 r2 rV m. StepCall k wd r1 r2 rV m \<in> set tr \<longrightarrow>
        suffix rV wd \<and> (\<exists>res'. step_fn k NewPorterStemmer wd r1 r2 rV = Some (res', m))) \<and>
     (\<forall>wd r1 r2 rV m sfx g.
        StepCall 2 wd r1 r2 rV m \<in> set tr \<and> sfx \<noteq> [] \<and>
        LongestSuffix (step2SuffixTree NewPorterStemmer) rV = (sfx, g) \<longrightarrow>
        suffix sfx wd \<and> 0 \<le> LastIndex wd sfx \<and>
        LastIndex wd sfx = int (length wd) - int (length sfx) \<and>
        slice_to wd (LastIndex wd sfx) = Some (take (length wd - length sfx) wd) \<and>
        step2 NewPorterStemmer wd r1 r2 rV = Some (take (length wd - length sfx) wd, True)) \<and>
     (\<forall>wd r1 r2 rV m sfx g.
        StepCall 4 wd r1 r2 rV m \<in> set tr \<and> sfx \<noteq> [] \<and>
        LongestSuffix (step4SuffixTree NewPorterStemmer) rV = (sfx, g) \<longrightarrow>
        suffix sfx wd \<and> 0 \<le> LastIndex wd sfx \<and>
        LastIndex wd sfx = int (length wd) - int (length sfx) \<and>
        slice_to wd (LastIndex wd sfx) = Some (take (length wd - length sfx) wd) \<and>
        step4 NewPorterStemmer wd r1 r2 rV = Some (take (length wd - length sfx) wd, True)) \<and>
     (\<forall>wd r1 r2 rV m sfx g.
        StepCall 5 wd r1 r2 rV m \<in> set tr \<and> sfx \<noteq> [] \<and>
        LongestSuffix (step5SuffixTree NewPorterStemmer) rV = (sfx, g) \<longrightarrow>
        suffix sfx wd \<and>
        (\<exists>d. d = (if suffix (str ''u'' @ sfx) rV \<and> suffix (str ''gu'' @ sfx) wd then str ''u'' @ sfx
                 else if suffix (str ''i'' @ sfx) rV \<and> suffix (str ''ci'' @ sfx) wd
                 then str ''i'' @ sfx
                 else sfx) \<and>
           suffix d wd \<and> 0 \<le> LastIndex wd d \<and>
           LastIndex wd d = int (length wd) - int (length d) \<and>
           slice_to wd (LastIndex wd d) = Some (take (length wd - length d) wd) \<and>
           step5 NewPorterStemmer wd r1 r2 rV = Some (take (length wd - length d) wd, True)))"
proof -
  obtain s2 m1 m2 s3 m3 s5 m5 where
    run: "Stem_trace NewPorterStemmer w =
       Some (run_log NewPorterStemmer (expandNasalisedVowels NewPorterStemmer w) m1 m2 s2 m3 s3 m5,
             contractNasalisedVowels NewPorterStemmer s5)"
    and len: "length (contract_scan s5) \<le>
       length (contract_scan (expandNasalisedVowels NewPorterStemmer w))"
    and rep: "replay NewPorterStemmer (expandNasalisedVowels NewPorterStemmer w)
       (run_log NewPorterStemmer (expandNasalisedVowels NewPorterStemmer w) m1 m2 s2 m3 s3 m5) =
       Some s5"
    by (rule Stem_trace_shape)
  let ?tr = "run_log NewPorterStemmer (expandNasalisedVowels NewPorterStemmer w) m1 m2 s2 m3 s3 m5"
  have st: "Stem NewPorterStemmer w = Some (contractNasalisedVowels NewPorterStemmer s5)"
    using Stem_trace_Stem [of NewPorterStemmer w] run by simp
  have a5: "attempted 5 ?tr"
    by (simp add: run_log_def call_def steps_of_def attempted_def List.map_filter_simps)
  have fr: "list_all (fresh NewPorterStemmer) ?tr"
    by (rule list_all_fresh_run_log)
  have rvs: "suffix rV wd" if "StepCall k wd r1 r2 rV m \<in> set ?tr" for k wd r1 r2 rV m
    using fr that fresh_rv_suffix unfolding list_all_iff by blast
  have cl: "suffix rV wd \<and> (\<exists>res'. step_fn k NewPorterStemmer wd r1 r2 rV = Some (res', m))"
    if "StepCall k wd r1 r2 rV m \<in> set ?tr" for k wd r1 r2 rV m
    using rvs [OF that] replay_call [OF rep that] by (rule conjI)
  have nonneg: "0 \<le> int (length x) - int (length y)" if "suffix y x" for x y :: "rune list"
    using suffix_length_le [OF that] by simp
  have two: "suffix sfx wd \<and> 0 \<le> LastIndex wd sfx \<and>
        LastIndex wd sfx = int (length wd) - int (length sfx) \<and>
        slice_to wd (LastIndex wd sfx) = Some (take (length wd - length sfx) wd) \<and>
        step2 NewPorterStemmer wd r1 r2 rV = Some (take (length wd - length sfx) wd, True)"
    if "StepCall 2 wd r1 r2 rV m \<in> set ?tr" "sfx \<noteq> []"
      "LongestSuffix (step2SuffixTree NewPorterStemmer) rV = (sfx, g)" for wd r1 r2 rV m sfx g
  proof -
    from that(3) have ls: "LongestSuffix (AddAll newSuffixTree step2Suffixes) rV = (sfx, g)"
      by (simp add: trees_New)
    note d = delete_in_rv [OF rvs [OF that(1)] ls that(2)]
    from d(3) that(2) have "step2 NewPorterStemmer wd r1 r2 rV =
        Some (take (length wd - length sfx) wd, True)"
      by (simp add: step2_def that(3))
    with d nonneg [OF d(1)] show ?thesis by simp
  qed
  have four: "suffix sfx wd \<and> 0 \<le> LastIndex wd sfx \<and>
        LastIndex wd sfx = int (length wd) - int (length sfx) \<and>
        slice_to wd (LastIndex wd sfx) = Some (take (length wd - length sfx) wd) \<and>
        step4 NewPorterStemmer wd r1 r2 rV = Some (take (length wd - length sfx) wd, True)"
    if "StepCall 4 wd r1 r2 rV m \<in> set ?tr" "sfx \<noteq> []"
      "LongestSuffix (step4SuffixTree NewPorterStemmer) rV = (sfx, g)" for wd r1 r2 rV m sfx g
  proof -
    from that(3) have ls: "LongestSuffix (AddAll newSuffixTree step4Suffixes) rV = (sfx, g)"
      by (simp add: trees_New)
    note d = delete_in_rv [OF rvs [OF that(1)] ls that(2)]
    from d(3) that(2) have "step4 NewPorterStemmer wd r1 r2 rV =
        Some (take (length wd - length sfx) wd, True)"
      by (simp add: step4_def that(3))
    with d nonneg [OF d(1)] show ?thesis by simp
  qed
  have five: "suffix sfx wd \<and>
        (\<exists>d. d = (if suffix (str ''u'' @ sfx) rV \<and> suffix (str ''gu'' @ sfx) wd then str ''u'' @ sfx
                 else if suffix (str ''i'' @ sfx) rV \<and> suffix (str ''ci'' @ sfx) wd
                 then str ''i'' @ sfx
                 else sfx) \<and>
           suffix d wd \<and> 0 \<le> LastIndex wd d \<and>
           LastIndex wd d = int (length wd) - int (length d) \<and>
           slice_to wd (LastIndex wd d) = Some (take (length wd - length d) wd) \<and>
           step5 NewPorterStemmer wd r1 r2 rV = Some (take (length wd - length d) wd, True))"
    if c: "StepCall 5 wd r1 r2 rV m \<in> set ?tr" and ne: "sfx \<noteq> []"
      and l5: "LongestSuffix (step5SuffixTree NewPorterStemmer) rV = (sfx, g)"
    for wd r1 r2 rV m sfx g
  proof -
    from l5 have ls: "LongestSuffix (AddAll newSuffixTree step5Suffixes) rV = (sfx, g)"
      by (simp add: trees_New)
    note rv = rvs [OF c]
    from step5_found [OF rv ls ne, of r1 r2] obtain res d where
      f: "step5 NewPorterStemmer wd r1 r2 rV = Some (res, True)" "wd = res @ d"
         "d = (if suffix (str ''u'' @ sfx) rV \<and> suffix (str ''gu'' @ sfx) wd then str ''u'' @ sfx
                 else if suffix (str ''i'' @ sfx) rV \<and> suffix (str ''ci'' @ sfx) wd
                 then str ''i'' @ sfx
                 else sfx)"
         "slice_to wd (LastIndex wd d) = Some res"
         "LastIndex wd d = int (length wd) - int (length d)"
      by (elim exE conjE) (rule that)
    from f(2) have tk: "res = take (length wd - length d) wd" by simp
    from f(2) have sd: "suffix d wd" by (simp add: suffix_def)
    have "d = (if suffix (str ''u'' @ sfx) rV \<and> suffix (str ''gu'' @ sfx) wd then str ''u'' @ sfx
                 else if suffix (str ''i'' @ sfx) rV \<and> suffix (str ''ci'' @ sfx) wd
                 then str ''i'' @ sfx
                 else sfx) \<and>
           suffix d wd \<and> 0 \<le> LastIndex wd d \<and>
           LastIndex wd d = int (length wd) - int (length d) \<and>
           slice_to wd (LastIndex wd d) = Some (take (length wd - length d) wd) \<and>
           step5 NewPorterStemmer wd r1 r2 rV = Some (take (length wd - length d) wd, True)"
    proof (intro conjI)
      show "d = (if suffix (str ''u'' @ sfx) rV \<and> suffix (str ''gu'' @ sfx) wd then str ''u'' @ sfx
                 else if suffix (str ''i'' @ sfx) rV \<and> suffix (str ''ci'' @ sfx) wd
                 then str ''i'' @ sfx
                 else sfx)"
        by (rule f(3))
      show "suffix d wd" by (rule sd)
      show "0 \<le> LastIndex wd d" using f(5) nonneg [OF sd] by simp
      show "LastIndex wd d = int (length wd) - int (length d)" by (rule f(5))
      show "slice_to wd (LastIndex wd d) = Some (take (length wd - length d) wd)"
        using f(4) tk by simp
      show "step5 NewPorterStemmer wd r1 r2 rV = Some (take (length wd - length d) wd, True)"
        using f(1) tk by simp
    qed
    then have "\<exists>d. d = (if suffix (str ''u'' @ sfx) rV \<and> suffix (str ''gu'' @ sfx) wd then str ''u'' @ sfx
                 else if suffix (str ''i'' @ sfx) rV \<and> suffix (str ''ci'' @ sfx) wd
                 then str ''i'' @ sfx
                 else sfx) \<and>
           suffix d wd \<and> 0 \<le> LastIndex wd d \<and>
           LastIndex wd d = int (length wd) - int (length d) \<and>
           slice_to wd (LastIndex wd d) = Some (take (length wd - length d) wd) \<and>
           step5 NewPorterStemmer wd r1 r2 rV = Some (take (length wd - length d) wd, True)"
      by (intro exI)
    with delete_in_rv(1) [OF rv ls ne] show ?thesis by (rule conjI)
  qed
  show ?thesis
  proof (rule exI [of _ ?tr], rule exI [of _ "contractNasalisedVowels NewPorterStemmer s5"],
      rule exI [of _ s5], intro conjI)
    show "Stem_trace NewPorterStemmer w =
        Some (?tr, contractNasalisedVowels NewPorterStemmer s5)"
      by (rule run)
    show "Stem NewPorterStemmer w = Some (contractNasalisedVowels NewPorterStemmer s5)"
      by (rule st)
    show "replay NewPorterStemmer (expandNasalisedVowels NewPorterStemmer w) ?tr = Some s5"
      by (rule rep)
    show "contractNasalisedVowels NewPorterStemmer s5 =
        contractNasalisedVowels NewPorterStemmer s5"
      by (rule refl)
    show "attempted 5 ?tr" by (rule a5)
    show "\<forall>k wd r1 r2 rV m. StepCall k wd r1 r2 rV m \<in> set ?tr \<longrightarrow>
        suffix rV wd \<and> (\<exists>res'. step_fn k NewPorterStemmer wd r1 r2 rV = Some (res', m))"
      by (intro allI impI) (rule cl)
    show "\<forall>wd r1 r2 rV m sfx g.
        StepCall 2 wd r1 r2 rV m \<in> set ?tr \<and> sfx \<noteq> [] \<and>
        LongestSuffix (step2SuffixTree NewPorterStemmer) rV = (sfx, g) \<longrightarrow>
        suffix sfx wd \<and> 0 \<le> LastIndex wd sfx \<and>
        LastIndex wd sfx = int (length wd) - int (length sfx) \<and>
        slice_to wd (LastIndex wd sfx) = Some (take (length wd - length sfx) wd) \<and>
        step2 NewPorterStemmer wd r1 r2 rV = Some (take (length wd - length sfx) wd, True)"
      by (intro allI impI, elim conjE) (rule two)
    show "\<forall>wd r1 r2 rV m sfx g.
        StepCall 4 wd r1 r2 rV m \<in> set ?tr \<and> sfx \<noteq> [] \<and>
        LongestSuffix (step4SuffixTree NewPorterStemmer) rV = (sfx, g) \<longrightarrow>
        suffix sfx wd \<and> 0 \<le> LastIndex wd sfx \<and>
        LastIndex wd sfx = int (length wd) - int (length sfx) \<and>
        slice_to wd (LastIndex wd sfx) = Some (take (length wd - length sfx) wd) \<and>
        step4 NewPorterStemmer wd r1 r2 rV = Some (take (length wd - length sfx) wd, True)"
      by (intro allI impI, elim conjE) (rule four)
    show "\<forall>wd r1 r2 rV m sfx g.
        StepCall 5 wd r1 r2 rV m \<in> set ?tr \<and> sfx \<noteq> [] \<and>
        LongestSuffix (step5SuffixTree NewPorterStemmer) rV = (sfx, g) \<longrightarrow>
        suffix sfx wd \<and>
        (\<exists>d. d = (if suffix (str ''u'' @ sfx) rV \<and> suffix (str ''gu'' @ sfx) wd then str ''u'' @ sfx
                 else if suffix (str ''i'' @ sfx) rV \<and> suffix (str ''ci'' @ sfx) wd
                 then str ''i'' @ sfx
                 else sfx) \<and>
           suffix d wd \<and> 0 \<le> LastIndex wd d \<and>
           LastIndex wd d = int (length wd) - int (length d) \<and>
           slice_to wd (LastIndex wd d) = Some (take (length wd - length d) wd) \<and>
           step5 NewPorterStemmer wd r1 r2 rV = Some (take (length wd - length d) wd, True))"
      by (intro allI impI, elim conjE) (rule five)
  qed
qed

theorem C9_witness:
  "LastIndex (str ''ajuda'') (str ''a'') = 4 \<and>
   step4 NewPorterStemmer (str ''ajuda'') (str ''uda'') (str ''a'') (str ''da'') =
     Some (str ''ajud'', True) \<and>
   suffix (str ''ue'') (str ''sague'') \<and>
   LastIndex (str ''sague'') (str ''ue'') = 3 \<and>
   step5 NewPorterStemmer (str ''sague'') (str ''ue'') [] (str ''ue'') = Some (str ''sag'', True)"
proof -
  from C9_rv_suffix_deleted [of "str ''ajuda''"] obtain tr res out where
    t: "Stem_trace NewPorterStemmer (str ''ajuda'') = Some (tr, res)"
    and four: "\<forall>wd r1 r2 rV m sfx g.
        StepCall 4 wd r1 r2 rV m \<in> set tr \<and> sfx \<noteq> [] \<and>
        LongestSuffix (step4SuffixTree NewPorterStemmer) rV = (sfx, g) \<longrightarrow>
        suffix sfx wd \<and> 0 \<le> LastIndex wd sfx \<and>
        LastIndex wd sfx = int (length wd) - int (length sfx) \<and>
        slice_to wd (LastIndex wd sfx) = Some (take (length wd - length sfx) wd) \<and>
        step4 NewPorterStemmer wd r1 r2 rV = Some (take (length wd - length sfx) wd, True)"
    by (elim exE conjE) (rule that)
  from t [unfolded Stem_trace_ajuda]
  have "StepCall 4 (str ''ajuda'') (str ''uda'') (str ''a'') (str ''da'') True \<in> set tr"
    by auto
  moreover have "str ''a'' \<noteq> []" by (simp add: str_def)
  moreover have "LongestSuffix (step4SuffixTree NewPorterStemmer) (str ''da'') = (str ''a'', 0)"
    by (simp add: trees_New LongestSuffix_AddAll_eq longest_registered_def step4Suffixes_def
        HasSuffix_def str_def)
  ultimately have
    "LastIndex (str ''ajuda'') (str ''a'') = int (length (str ''ajuda'')) - int (length (str ''a'')) \<and>
     step4 NewPorterStemmer (str ''ajuda'') (str ''uda'') (str ''a'') (str ''da'') =
       Some (take (length (str ''ajuda'') - length (str ''a'')) (str ''ajuda''), True)"
    using four by blast
  then have a: "LastIndex (str ''ajuda'') (str ''a'') = 4 \<and>
     step4 NewPorterStemmer (str ''ajuda'') (str ''uda'') (str ''a'') (str ''da'') =
       Some (str ''ajud'', True)"
    by (simp add: str_def)
  from C9_rv_suffix_deleted [of "str ''sague''"] obtain tr' res' out' where
    t': "Stem_trace NewPorterStemmer (str ''sague'') = Some (tr', res')"
    and all: "\<forall>k wd r1 r2 rV m. StepCall k wd r1 r2 rV m \<in> set tr' \<longrightarrow>
        suffix rV wd \<and> (\<exists>res'. step_fn k NewPorterStemmer wd r1 r2 rV = Some (res', m))"
    and five: "\<forall>wd r1 r2 rV m sfx g.
        StepCall 5 wd r1 r2 rV m \<in> set tr' \<and> sfx \<noteq> [] \<and>
        LongestSuffix (step5SuffixTree NewPorterStemmer) rV = (sfx, g) \<longrightarrow>
        suffix sfx wd \<and>
        (\<exists>d. d = (if suffix (str ''u'' @ sfx) rV \<and> suffix (str ''gu'' @ sfx) wd then str ''u'' @ sfx
                 else if suffix (str ''i'' @ sfx) rV \<and> suffix (str ''ci'' @ sfx) wd
                 then str ''i'' @ sfx
                 else sfx) \<and>
           suffix d wd \<and> 0 \<le> LastIndex wd d \<and>
           LastIndex wd d = int (length wd) - int (length d) \<and>
           slice_to wd (LastIndex wd d) = Some (take (length wd - length d) wd) \<and>
           step5 NewPorterStemmer wd r1 r2 rV = Some (take (length wd - length d) wd, True))"
    by (elim exE conjE) (rule that)
  from t' [unfolded Stem_trace_sague]
  have mem: "StepCall 5 (str ''sague'') (str ''ue'') [] (str ''ue'') True \<in> set tr'"
    by auto
  from all [rule_format, OF mem] have b: "suffix (str ''ue'') (str ''sague'')"
    by (rule conjunct1)
  have ne: "str ''e'' \<noteq> []" by (simp add: str_def)
  have ls: "LongestSuffix (step5SuffixTree NewPorterStemmer) (str ''ue'') = (str ''e'', 0)"
    by (simp add: trees_New LongestSuffix_AddAll_eq longest_registered_def step5Suffixes_def
        HasSuffix_def str_def)
  from five [rule_format, OF conjI [OF mem conjI [OF ne ls]]] obtain d where
    d: "d = (if suffix (str ''u'' @ str ''e'') (str ''ue'') \<and>
               suffix (str ''gu'' @ str ''e'') (str ''sague'') then str ''u'' @ str ''e''
            else if suffix (str ''i'' @ str ''e'') (str ''ue'') \<and>
               suffix (str ''ci'' @ str ''e'') (str ''sague'')
            then str ''i'' @ str ''e''
            else str ''e'')"
    and li: "LastIndex (str ''sague'') d = int (length (str ''sague'')) - int (length d)"
    and s5: "step5 NewPorterStemmer (str ''sague'') (str ''ue'') [] (str ''ue'') =
       Some (take (length (str ''sague'') - length d) (str ''sague''), True)"
    by (elim exE conjE) (rule that)
  from d have d': "d = str ''ue''"
    by (simp add: str_def suffix_to_prefix)
  from li s5 have c: "LastIndex (str ''sague'') (str ''ue'') = 3 \<and>
     step5 NewPorterStemmer (str ''sague'') (str ''ue'') [] (str ''ue'') = Some (str ''sag'', True)"
    unfolding d' by (simp add: str_def)
  from a b c show ?thesis by simp
qed

text \<open>
  C9, as stated, fails in the run on "sague": step 5 is called with the word "sague"
  and the rv "ue", its tree returns the non-empty suffix "e", and the step returns
  "sag". It has deleted "ue", not the trailing occurrence of "e" alone, which would
  leave "sagu"; the index that \<open>LastIndex\<close> returned for the slice is 3, where the
  length of the word minus the length of the suffix is 4.
\<close>

theorem C9_counterexample:
  "Stem_trace NewPorterStemmer (str ''sague'') =
     Some ([Regions (str ''sague''),
            StepCall 1 (str ''sague'') (str ''ue'') [] (str ''ue'') False,
            StepCall 2 (str ''sague'') (str ''ue'') [] (str ''ue'') False,
            StepCall 4 (str ''sague'') (str ''ue'') [] (str ''ue'') False,
            StepCall 5 (str ''sague'') (str ''ue'') [] (str ''ue'') True],
           str ''sag'') \<and>
   LongestSuffix (step5SuffixTree NewPorterStemmer) (str ''ue'') = (str ''e'', 0) \<and>
   step5 NewPorterStemmer (str ''sague'') (str ''ue'') [] (str ''ue'') = Some (str ''sag'', True) \<and>
   take (length (str ''sague'') - length (str ''e'')) (str ''sague'') = str ''sagu'' \<and>
   str ''sag'' \<noteq> str ''sagu'' \<and>
   LastIndex (str ''sague'') (str ''u'' @ str ''e'') = 3 \<and>
   int (length (str ''sague'')) - int (length (str ''e'')) = 4"
proof (intro conjI)
  show "Stem_trace NewPorterStemmer (str ''sague'') =
     Some ([Regions (str ''sague''),
            StepCall 1 (str ''sague'') (str ''ue'') [] (str ''ue'') False,
            StepCall 2 (str ''sague'') (str ''ue'') [] (str ''ue'') False,
            StepCall 4 (str ''sague'') (str ''ue'') [] (str ''ue'') False,
            StepCall 5 (str ''sague'') (str ''ue'') [] (str ''ue'') True],
           str ''sag'')"
    by (rule Stem_trace_sague)
  show "LongestSuffix (step5SuffixTree NewPorterStemmer) (str ''ue'') = (str ''e'', 0)"
    by (simp add: trees_New LongestSuffix_AddAll_eq longest_registered_def step5Suffixes_def
        HasSuffix_def str_def)
  show "step5 NewPorterStemmer (str ''sague'') (str ''ue'') [] (str ''ue'') = Some (str ''sag'', True)"
    by (simp add: eval_defs)
qed (simp_all add: str_def LastIndex_def)

text \<open>
  C10. The stem that \<open>Stem\<close> returns never has more runes than the word: expansion adds
  one marker for each nasal vowel, no step makes the contracted word longer (a step
  returns the word, a prefix of it, or a prefix with a replacement that is not longer
  than the tilde-free suffix it replaces), and contraction takes the markers back.
\<close>

theorem C10_Stem_not_longer:
  "\<exists>s. Stem NewPorterStemmer w = Some s \<and> length s \<le> length w"
proof -
  obtain s2 m1 m2 s3 m3 s5 m5 where
    run: "Stem_trace NewPorterStemmer w =
       Some (run_log NewPorterStemmer (expandNasalisedVowels NewPorterStemmer w) m1 m2 s2 m3 s3 m5,
             contractNasalisedVowels NewPorterStemmer s5)"
    and len: "length (contract_scan s5) \<le>
              length (contract_scan (expandNasalisedVowels NewPorterStemmer w))"
    by (rule Stem_trace_shape)
  have "Stem NewPorterStemmer w = Some (contractNasalisedVowels NewPorterStemmer s5)"
    using Stem_trace_Stem [of NewPorterStemmer w] run by simp
  moreover have "length (contractNasalisedVowels NewPorterStemmer s5) \<le> length w"
    using len length_contract_expand [of w]
    by (simp add: contractNasalisedVowels_eq expandNasalisedVowels_eq)
  ultimately show ?thesis by simp
qed

end
